theory Spec2Isabelle
  imports Main "HOL-Library.Word"
begin

unbundle bit_operations_syntax

section \<open>Entity identifiers\<close>

text \<open>
  An \<open>entity_id\<close> is a \<open>std::uint32_t\<close>, a \<open>family_id\<close> a \<open>std::uint16_t\<close>.
  The two masks are computed by the source in \<open>unsigned\<close> arithmetic and then stored
  as \<open>std::size_t\<close>; both fit 32 bits, so that masking an \<open>entity_id\<close> with them and
  comparing one against them is the same in 32 bits.
\<close>

type_synonym entity_id = "32 word"
type_synonym family_id = "16 word"

definition entity_id_index_bits :: nat where
  "entity_id_index_bits = 22"

definition entity_id_version_bits :: nat where
  "entity_id_version_bits = 10"

definition entity_id_index_mask :: entity_id where
  "entity_id_index_mask = push_bit entity_id_index_bits 1 - 1"

definition entity_id_version_mask :: entity_id where
  "entity_id_version_mask = push_bit entity_id_version_bits 1 - 1"

definition entity_id_index :: "entity_id \<Rightarrow> entity_id" where
  "entity_id_index id' = id' AND entity_id_index_mask"

definition entity_id_version :: "entity_id \<Rightarrow> entity_id" where
  "entity_id_version id' = drop_bit entity_id_index_bits id' AND entity_id_version_mask"

definition entity_id_join :: "entity_id \<Rightarrow> entity_id \<Rightarrow> entity_id" where
  "entity_id_join index version = index OR push_bit entity_id_index_bits version"

definition upgrade_entity_id :: "entity_id \<Rightarrow> entity_id" where
  "upgrade_entity_id id' =
     entity_id_join (entity_id_index id') (entity_id_version id' + 1)"


section \<open>Errors\<close>

text \<open>
  The exceptions the source throws, and the failure of an \<open>assert\<close>. In C++
  \<open>std::length_error\<close> is derived from \<open>std::logic_error\<close>; the model keeps the two
  apart and \<open>is_logic_error\<close> records the subclass relation.

  Two more values stand for calls whose behaviour C++ leaves undefined, after which
  nothing is known of the program: \<open>Out_of_bounds\<close>, a write past the end of a vector, and
  \<open>Deadlock\<close>, a thread locking a \<open>std::shared_mutex\<close> that it already holds (the call
  blocks forever, or the lock throws inside a \<open>noexcept\<close> function and the program
  terminates). Neither is an exception a caller can catch.
\<close>

datatype error = Logic_error | Length_error | Assertion_failed | Out_of_bounds | Deadlock

fun is_logic_error :: "error \<Rightarrow> bool" where
  "is_logic_error Logic_error = True"
| "is_logic_error Length_error = True"
| "is_logic_error Assertion_failed = False"
| "is_logic_error Out_of_bounds = False"
| "is_logic_error Deadlock = False"

section \<open>Growth policy\<close>

text \<open>
  \<open>next_capacity_size\<close>. Sizes are \<open>std::size_t\<close> in the source and \<open>nat\<close> here:
  \<open>cur_size * 2\<close> is only computed below \<open>max_size / 2\<close> and cannot wrap.
  \<open>std::size_t\<close> is taken to be 64 bits wide; \<open>size_max\<close> is \<open>SIZE_MAX\<close> and
  \<open>size_t_add1\<close> is \<open>n + 1u\<close> computed in \<open>std::size_t\<close>, which wraps to \<open>0\<close> at
  \<open>SIZE_MAX\<close>.
\<close>

definition size_max :: nat where
  "size_max = 2 ^ 64 - 1"

definition size_t_add1 :: "nat \<Rightarrow> nat" where
  "size_t_add1 n = (n + 1) mod (size_max + 1)"

definition next_capacity_size :: "nat \<Rightarrow> nat \<Rightarrow> nat \<Rightarrow> error + nat" where
  "next_capacity_size cur_size min_size max_size =
     (if min_size > max_size then Inl Length_error
      else if cur_size \<ge> max_size div 2 then Inr max_size
      else Inr (max (cur_size * 2) min_size))"

section \<open>Sparse set\<close>

text \<open>
  \<open>detail::sparse_set<T, Indexer>\<close>: the vector \<open>dense_\<close> of the values and the vector
  \<open>sparse_\<close> of positions in \<open>dense_\<close>, addressed by the indexer. The indexer is a
  parameter \<open>ix\<close> of every operation, \<open>mx\<close> is \<open>sparse_.max_size()\<close>, a constant of
  the platform. \<open>std::vector::resize\<close> fills with zeros.

  \<open>insert\<close> resizes \<open>sparse_\<close> to hold the index \<open>vi\<close>, asking for \<open>vi + 1u\<close> elements.
  At \<open>vi = SIZE_MAX\<close> the sum wraps to \<open>0\<close>, the vector stays shorter than \<open>vi\<close> and
  \<open>sparse_[vi] = ...\<close> writes past its end: the model returns \<open>Out_of_bounds\<close>.
\<close>

record 'a sparse_set =
  dense :: "'a list"
  sparse :: "nat list"

definition sparse_set_empty :: "'a sparse_set" where
  "sparse_set_empty = \<lparr>dense = [], sparse = []\<rparr>"

definition vector_resize :: "nat list \<Rightarrow> nat \<Rightarrow> nat list" where
  "vector_resize xs n = take n xs @ replicate (n - length xs) 0"

definition sparse_set_has :: "('a \<Rightarrow> nat) \<Rightarrow> 'a sparse_set \<Rightarrow> 'a \<Rightarrow> bool" where
  "sparse_set_has ix s v =
     (let vi = ix v in
      vi < length (sparse s)
      \<and> sparse s ! vi < length (dense s)
      \<and> dense s ! (sparse s ! vi) = v)"

definition sparse_set_insert ::
  "('a \<Rightarrow> nat) \<Rightarrow> nat \<Rightarrow> 'a sparse_set \<Rightarrow> 'a \<Rightarrow> error + (bool \<times> 'a sparse_set)" where
  "sparse_set_insert ix mx s v =
     (if sparse_set_has ix s v then Inr (False, s)
      else
        let vi = ix v in
        case (if vi \<ge> length (sparse s)
              then (case next_capacity_size (length (sparse s)) (size_t_add1 vi) mx of
                      Inl e \<Rightarrow> Inl e
                    | Inr n \<Rightarrow> Inr (vector_resize (sparse s) n))
              else Inr (sparse s)) of
          Inl e \<Rightarrow> Inl e
        | Inr sp \<Rightarrow>
            let d = dense s @ [v] in
            if vi < length sp
            then Inr (True, \<lparr>dense = d, sparse = sp[vi := length d - 1]\<rparr>)
            else Inl Out_of_bounds)"

definition sparse_set_unordered_erase ::
  "('a \<Rightarrow> nat) \<Rightarrow> 'a sparse_set \<Rightarrow> 'a \<Rightarrow> bool \<times> 'a sparse_set" where
  "sparse_set_unordered_erase ix s v =
     (if \<not> sparse_set_has ix s v then (False, s)
      else
        let vi = ix v;
            dense_index = sparse s ! vi;
            back = length (dense s) - 1;
            (d, sp) =
              (if dense_index \<noteq> back
               then (let d' = (dense s)[dense_index := dense s ! back,
                                         back := dense s ! dense_index]
                     in (d', (sparse s)[ix (d' ! dense_index) := dense_index]))
               else (dense s, sparse s))
        in (True, \<lparr>dense = butlast d, sparse = sp\<rparr>))"

definition sparse_set_clear :: "'a sparse_set \<Rightarrow> 'a sparse_set" where
  "sparse_set_clear s = s\<lparr>dense := []\<rparr>"

definition sparse_set_find_dense_index ::
  "('a \<Rightarrow> nat) \<Rightarrow> 'a sparse_set \<Rightarrow> 'a \<Rightarrow> nat option" where
  "sparse_set_find_dense_index ix s v =
     (if sparse_set_has ix s v then Some (sparse s ! ix v) else None)"

definition sparse_set_get_dense_index ::
  "('a \<Rightarrow> nat) \<Rightarrow> 'a sparse_set \<Rightarrow> 'a \<Rightarrow> error + nat" where
  "sparse_set_get_dense_index ix s v =
     (case sparse_set_find_dense_index ix s v of
        Some i \<Rightarrow> Inr i
      | None \<Rightarrow> Inl Logic_error)"

definition sparse_set_size :: "'a sparse_set \<Rightarrow> nat" where
  "sparse_set_size s = length (dense s)"

text \<open>
  A sequence of operations on one sparse set. An insert that throws leaves the set as it
  was (it throws before it changes anything) and the caller goes on; an insert that writes
  out of bounds ends the run.
\<close>

datatype 'a sparse_set_op = Insert 'a | Unordered_erase 'a | Clear

fun sparse_set_step ::
  "('a \<Rightarrow> nat) \<Rightarrow> nat \<Rightarrow> 'a sparse_set \<Rightarrow> 'a sparse_set_op \<Rightarrow> error + 'a sparse_set" where
  "sparse_set_step ix mx s (Insert v) =
     (case sparse_set_insert ix mx s v of
        Inl e \<Rightarrow> if e = Out_of_bounds then Inl e else Inr s
      | Inr (b, s') \<Rightarrow> Inr s')"
| "sparse_set_step ix mx s (Unordered_erase v) = Inr (snd (sparse_set_unordered_erase ix s v))"
| "sparse_set_step ix mx s Clear = Inr (sparse_set_clear s)"

fun sparse_set_run_from ::
  "('a \<Rightarrow> nat) \<Rightarrow> nat \<Rightarrow> 'a sparse_set \<Rightarrow> 'a sparse_set_op list \<Rightarrow> error + 'a sparse_set" where
  "sparse_set_run_from ix mx s [] = Inr s"
| "sparse_set_run_from ix mx s (x # xs) =
     (case sparse_set_step ix mx s x of
        Inl e \<Rightarrow> Inl e
      | Inr s' \<Rightarrow> sparse_set_run_from ix mx s' xs)"

definition sparse_set_run ::
  "('a \<Rightarrow> nat) \<Rightarrow> nat \<Rightarrow> 'a sparse_set_op list \<Rightarrow> error + 'a sparse_set" where
  "sparse_set_run ix mx ops = sparse_set_run_from ix mx sparse_set_empty ops"

definition entity_id_indexer :: "entity_id \<Rightarrow> nat" where
  "entity_id_indexer id' = unat (entity_id_index id')"

definition sparse_indexer :: "'a::len word \<Rightarrow> nat" where
  "sparse_indexer v = unat v"

section \<open>Representation invariants\<close>

text \<open>
  The invariant of a sparse set: every position of \<open>dense\<close> is the one the sparse array
  records for the index of the value that stands there.
\<close>

definition ss_wf :: "('a \<Rightarrow> nat) \<Rightarrow> 'a sparse_set \<Rightarrow> bool" where
  "ss_wf ix s =
     (\<forall>i < length (dense s).
        ix (dense s ! i) < length (sparse s) \<and> sparse s ! ix (dense s ! i) = i)"

section \<open>The values a sequence of operations leaves present\<close>

text \<open>
  What "currently present" means for a sequence of operations, independently of the two
  arrays: an insert adds its value (unless it throws, which it does exactly when the index
  does not fit below \<open>max_size\<close>), an erase removes it, a clear removes everything.

  Two conditions on a sequence of operations. \<open>index_fits\<close>: the index of an inserted
  value is below \<open>SIZE_MAX\<close>. \<open>collision_free\<close>: no insert is given a value whose index
  is the index of another value present at that moment. The registry keeps both for its
  set of entity ids, whose indexer \<open>entity_id_indexer\<close> maps the ids of one slot to one
  index.
\<close>

fun present_step :: "('a \<Rightarrow> nat) \<Rightarrow> nat \<Rightarrow> 'a set \<Rightarrow> 'a sparse_set_op \<Rightarrow> 'a set" where
  "present_step ix mx A (Insert v) = (if ix v < mx then insert v A else A)"
| "present_step ix mx A (Unordered_erase v) = A - {v}"
| "present_step ix mx A Clear = {}"

definition present_values :: "('a \<Rightarrow> nat) \<Rightarrow> nat \<Rightarrow> 'a sparse_set_op list \<Rightarrow> 'a set" where
  "present_values ix mx ops = foldl (present_step ix mx) {} ops"

fun index_fits :: "('a \<Rightarrow> nat) \<Rightarrow> 'a sparse_set_op \<Rightarrow> bool" where
  "index_fits ix (Insert v) = (ix v < size_max)"
| "index_fits ix (Unordered_erase v) = True"
| "index_fits ix Clear = True"

fun collides :: "('a \<Rightarrow> nat) \<Rightarrow> 'a set \<Rightarrow> 'a sparse_set_op \<Rightarrow> bool" where
  "collides ix A (Insert v) = (\<exists>u \<in> A. u \<noteq> v \<and> ix u = ix v)"
| "collides ix A (Unordered_erase v) = False"
| "collides ix A Clear = False"

fun collision_free ::
  "('a \<Rightarrow> nat) \<Rightarrow> nat \<Rightarrow> 'a set \<Rightarrow> 'a sparse_set_op list \<Rightarrow> bool" where
  "collision_free ix mx A [] = True"
| "collision_free ix mx A (x # xs) =
     (\<not> collides ix A x \<and> collision_free ix mx (present_step ix mx A x) xs)"

text \<open>
  The invariant of a run of operations: the set is well formed, its sparse array stays
  within \<open>max_size\<close>, and \<open>dense\<close> holds the values \<open>A\<close>.
\<close>

definition sparse_set_run_inv :: "('a \<Rightarrow> nat) \<Rightarrow> nat \<Rightarrow> 'a sparse_set \<Rightarrow> 'a set \<Rightarrow> bool" where
  "sparse_set_run_inv ix mx s A \<longleftrightarrow> ss_wf ix s \<and> length (sparse s) \<le> mx \<and> set (dense s) = A"

section \<open>Platform\<close>

text \<open>
  What the source takes from the C++ implementation: \<open>max_size()\<close> of the vector of
  sparse positions (\<open>std::vector<std::size_t>\<close>) and of the vector of free ids
  (\<open>std::vector<entity_id>\<close>), and whether \<open>assert\<close> is compiled in (\<open>NDEBUG\<close> not
  defined). Allocation failure (\<open>std::bad_alloc\<close>) is not modelled.
\<close>

record platform =
  sparse_max_size :: nat
  ids_max_size :: nat
  assertions :: bool

section \<open>Sparse map\<close>

text \<open>
  \<open>detail::sparse_map<K, T, Indexer>\<close>: a sparse set of keys and the vector of values,
  the value of a key at the key's position in \<open>dense\<close>. A pointer to a value, as
  \<open>find\<close> returns it, is the position of the value.
\<close>

record ('k, 'v) sparse_map =
  keys :: "'k sparse_set"
  vals :: "'v list"

definition sparse_map_empty :: "('k, 'v) sparse_map" where
  "sparse_map_empty = \<lparr>keys = sparse_set_empty, vals = []\<rparr>"

definition sparse_map_find :: "('k \<Rightarrow> nat) \<Rightarrow> ('k, 'v) sparse_map \<Rightarrow> 'k \<Rightarrow> 'v option" where
  "sparse_map_find ix m k =
     (case sparse_set_find_dense_index ix (keys m) k of
        Some i \<Rightarrow> Some (vals m ! i)
      | None \<Rightarrow> None)"

definition sparse_map_has :: "('k \<Rightarrow> nat) \<Rightarrow> ('k, 'v) sparse_map \<Rightarrow> 'k \<Rightarrow> bool" where
  "sparse_map_has ix m k = sparse_set_has ix (keys m) k"

definition sparse_map_get :: "('k \<Rightarrow> nat) \<Rightarrow> ('k, 'v) sparse_map \<Rightarrow> 'k \<Rightarrow> error + 'v" where
  "sparse_map_get ix m k =
     (case sparse_set_get_dense_index ix (keys m) k of
        Inl e \<Rightarrow> Inl e
      | Inr i \<Rightarrow> Inr (vals m ! i))"

text \<open>
  \<open>insert\<close> and \<open>insert_or_assign\<close> push the value, insert the key and pop the value
  again when the key's insertion throws: the map is then as it was.
\<close>

definition sparse_map_insert ::
  "('k \<Rightarrow> nat) \<Rightarrow> nat \<Rightarrow> ('k, 'v) sparse_map \<Rightarrow> 'k \<Rightarrow> 'v
     \<Rightarrow> error + (bool \<times> ('k, 'v) sparse_map)" where
  "sparse_map_insert ix mx m k v =
     (case sparse_set_find_dense_index ix (keys m) k of
        Some i \<Rightarrow> Inr (False, m)
      | None \<Rightarrow>
          (case sparse_set_insert ix mx (keys m) k of
             Inl e \<Rightarrow> Inl e
           | Inr (b, ks) \<Rightarrow> Inr (True, \<lparr>keys = ks, vals = vals m @ [v]\<rparr>)))"

definition sparse_map_insert_or_assign ::
  "('k \<Rightarrow> nat) \<Rightarrow> nat \<Rightarrow> ('k, 'v) sparse_map \<Rightarrow> 'k \<Rightarrow> 'v
     \<Rightarrow> error + (bool \<times> ('k, 'v) sparse_map)" where
  "sparse_map_insert_or_assign ix mx m k v =
     (case sparse_set_find_dense_index ix (keys m) k of
        Some i \<Rightarrow> Inr (False, m\<lparr>vals := (vals m)[i := v]\<rparr>)
      | None \<Rightarrow>
          (case sparse_set_insert ix mx (keys m) k of
             Inl e \<Rightarrow> Inl e
           | Inr (b, ks) \<Rightarrow> Inr (True, \<lparr>keys = ks, vals = vals m @ [v]\<rparr>)))"

definition sparse_map_unordered_erase ::
  "('k \<Rightarrow> nat) \<Rightarrow> ('k, 'v) sparse_map \<Rightarrow> 'k \<Rightarrow> bool \<times> ('k, 'v) sparse_map" where
  "sparse_map_unordered_erase ix m k =
     (case sparse_set_find_dense_index ix (keys m) k of
        None \<Rightarrow> (False, m)
      | Some i \<Rightarrow>
          let back = length (vals m) - 1;
              vs = (if i \<noteq> back
                    then (vals m)[i := vals m ! back, back := vals m ! i]
                    else vals m)
          in (True, \<lparr>keys = snd (sparse_set_unordered_erase ix (keys m) k),
                     vals = butlast vs\<rparr>))"

definition sparse_map_clear :: "('k, 'v) sparse_map \<Rightarrow> ('k, 'v) sparse_map" where
  "sparse_map_clear m = \<lparr>keys = sparse_set_clear (keys m), vals = []\<rparr>"

definition sparse_map_size :: "('k, 'v) sparse_map \<Rightarrow> nat" where
  "sparse_map_size m = length (vals m)"

section \<open>Component storage\<close>

text \<open>
  \<open>detail::component_storage<T>\<close> for a component type with state: a sparse map from
  entity ids, indexed by the index field of the id. Component values of all types are
  taken from one type \<open>'v\<close>; a component type is identified with its \<open>family_id\<close>.

  Every operation of a storage takes the \<open>components_locker_\<close> of the storage, a
  \<open>std::shared_mutex\<close>, for its duration: a \<open>shared_lock\<close> in \<open>exists\<close>, \<open>has\<close>, \<open>count\<close>
  and the const \<open>find\<close> and \<open>for_each_component\<close>, a \<open>unique_lock\<close> in the others. For a
  single thread a lock changes the outcome only when the thread takes a lock that it
  holds already, which can happen inside the callback of \<open>for_each_component\<close> only: it
  is the one operation that calls out while it holds the lock. So \<open>storage_assign\<close>,
  \<open>storage_ensure\<close>, \<open>storage_exists\<close>, \<open>storage_remove\<close>, \<open>storage_remove_all\<close> and
  \<open>storage_find\<close> are the operations as a thread runs them that does not hold the lock
  of the storage; \<open>acquire\<close> is the taking of the lock and goes before them where a lock
  may be held. A lock is named by the position of its storage in the table of storages,
  \<open>held\<close> lists the locks the thread holds. Other threads are not modelled.
\<close>

type_synonym 'v component_storage = "(entity_id, 'v) sparse_map"

definition storage_assign ::
  "platform \<Rightarrow> 'v component_storage \<Rightarrow> entity_id \<Rightarrow> 'v \<Rightarrow> error + 'v component_storage" where
  "storage_assign p st id' v =
     (case sparse_set_find_dense_index entity_id_indexer (keys st) id' of
        Some i \<Rightarrow> Inr (st\<lparr>vals := (vals st)[i := v]\<rparr>)
      | None \<Rightarrow>
          (case sparse_map_insert entity_id_indexer (sparse_max_size p) st id' v of
             Inl e \<Rightarrow> Inl e
           | Inr (b, st') \<Rightarrow> Inr st'))"

definition storage_ensure ::
  "platform \<Rightarrow> 'v component_storage \<Rightarrow> entity_id \<Rightarrow> 'v \<Rightarrow> error + 'v component_storage" where
  "storage_ensure p st id' v =
     (case sparse_set_find_dense_index entity_id_indexer (keys st) id' of
        Some i \<Rightarrow> Inr st
      | None \<Rightarrow>
          (case sparse_map_insert entity_id_indexer (sparse_max_size p) st id' v of
             Inl e \<Rightarrow> Inl e
           | Inr (b, st') \<Rightarrow> Inr st'))"

definition storage_exists :: "'v component_storage \<Rightarrow> entity_id \<Rightarrow> bool" where
  "storage_exists st id' = sparse_map_has entity_id_indexer st id'"

definition storage_remove ::
  "'v component_storage \<Rightarrow> entity_id \<Rightarrow> bool \<times> 'v component_storage" where
  "storage_remove st id' = sparse_map_unordered_erase entity_id_indexer st id'"

definition storage_remove_all :: "'v component_storage \<Rightarrow> nat \<times> 'v component_storage" where
  "storage_remove_all st = (sparse_map_size st, sparse_map_clear st)"

definition storage_find :: "'v component_storage \<Rightarrow> entity_id \<Rightarrow> 'v option" where
  "storage_find st id' = sparse_map_find entity_id_indexer st id'"

definition acquire :: "nat list \<Rightarrow> nat \<Rightarrow> error + unit" where
  "acquire held i = (if i \<in> set held then Inl Deadlock else Inr ())"

text \<open>
  \<open>for_each_component\<close> (the non-const overload): under the \<open>unique_lock\<close> of the
  storage, the callback gets each id of the storage, in dense order, with the value
  \<open>components_.get(id)\<close>. The callback works on an accumulator and may fail; it is told
  the locks that are held while it runs.
\<close>

fun storage_for_each_loop ::
  "(entity_id \<Rightarrow> 'v \<Rightarrow> 'a \<Rightarrow> error + 'a) \<Rightarrow> 'v component_storage \<Rightarrow> entity_id list \<Rightarrow> 'a
     \<Rightarrow> error + 'a" where
  "storage_for_each_loop f st [] acc = Inr acc"
| "storage_for_each_loop f st (id' # ids) acc =
     (case sparse_map_get entity_id_indexer st id' of
        Inl e \<Rightarrow> Inl e
      | Inr c \<Rightarrow>
          (case f id' c acc of
             Inl e \<Rightarrow> Inl e
           | Inr acc' \<Rightarrow> storage_for_each_loop f st ids acc'))"

definition storage_for_each_component ::
  "nat list \<Rightarrow> nat \<Rightarrow> (nat list \<Rightarrow> entity_id \<Rightarrow> 'v \<Rightarrow> 'a \<Rightarrow> error + 'a)
     \<Rightarrow> 'v component_storage \<Rightarrow> 'a \<Rightarrow> error + 'a" where
  "storage_for_each_component held i f st acc =
     (case acquire held i of
        Inl e \<Rightarrow> Inl e
      | Inr u \<Rightarrow> storage_for_each_loop (f (i # held)) st (dense (keys st)) acc)"

section \<open>Registry\<close>

text \<open>
  The registry: the seed of fresh indices, the vector of free ids with its capacity, the
  sparse set of live ids and the table of storages. The features are modelled apart, and
  of the locks those of the storages, with the storages. \<open>std::vector::reserve\<close> is taken to allocate exactly what is asked for, the least
  the standard allows; \<open>push_back\<close> at full capacity reallocates, here to twice the
  capacity.
\<close>

record 'v registry =
  last_entity_id :: entity_id
  free_entity_ids :: "entity_id list"
  free_entity_ids_capacity :: nat
  entity_ids :: "entity_id sparse_set"
  storages :: "(family_id, 'v component_storage) sparse_map"

definition registry_empty :: "'v registry" where
  "registry_empty =
     \<lparr>last_entity_id = 0, free_entity_ids = [], free_entity_ids_capacity = 0,
      entity_ids = sparse_set_empty, storages = sparse_map_empty\<rparr>"

definition vector_reserve :: "nat \<Rightarrow> nat \<Rightarrow> nat" where
  "vector_reserve capacity n = (if n > capacity then n else capacity)"

definition vector_push_back_capacity :: "nat \<Rightarrow> nat \<Rightarrow> nat" where
  "vector_push_back_capacity size' capacity =
     (if size' < capacity then capacity else max 1 (2 * capacity))"

definition valid_entity :: "'v registry \<Rightarrow> entity_id \<Rightarrow> bool" where
  "valid_entity r ent = sparse_set_has entity_id_indexer (entity_ids r) ent"

definition entity_count :: "'v registry \<Rightarrow> nat" where
  "entity_count r = sparse_set_size (entity_ids r)"

text \<open>
  \<open>create_entity\<close> returns the new id or the exception, and the registry as the call
  leaves it.
\<close>

definition create_entity :: "platform \<Rightarrow> 'v registry \<Rightarrow> (error + entity_id) \<times> 'v registry" where
  "create_entity p r =
     (if free_entity_ids r \<noteq> [] then
        let free_ent_id = last (free_entity_ids r);
            new_ent_id = upgrade_entity_id free_ent_id
        in (case sparse_set_insert entity_id_indexer (sparse_max_size p) (entity_ids r) new_ent_id of
              Inl e \<Rightarrow> (Inl e, r)
            | Inr (b, ids) \<Rightarrow>
                (Inr new_ent_id,
                 r\<lparr>entity_ids := ids, free_entity_ids := butlast (free_entity_ids r)\<rparr>))
      else if last_entity_id r \<ge> entity_id_index_mask then (Inl Logic_error, r)
      else
        (case (if free_entity_ids_capacity r \<le> sparse_set_size (entity_ids r)
               then (case next_capacity_size (free_entity_ids_capacity r)
                            (sparse_set_size (entity_ids r) + 1) (ids_max_size p) of
                       Inl e \<Rightarrow> Inl e
                     | Inr n \<Rightarrow> Inr (vector_reserve (free_entity_ids_capacity r) n))
               else Inr (free_entity_ids_capacity r)) of
           Inl e \<Rightarrow> (Inl e, r)
         | Inr capacity \<Rightarrow>
             (case sparse_set_insert entity_id_indexer (sparse_max_size p) (entity_ids r)
                     (last_entity_id r + 1) of
                Inl e \<Rightarrow> (Inl e, r\<lparr>free_entity_ids_capacity := capacity\<rparr>)
              | Inr (b, ids) \<Rightarrow>
                  (Inr (last_entity_id r + 1),
                   r\<lparr>free_entity_ids_capacity := capacity, entity_ids := ids,
                     last_entity_id := last_entity_id r + 1\<rparr>))))"

text \<open>
  \<open>find_storage_\<close>: the position of the storage of a component type in the table, or
  nothing. \<open>get_or_create_storage_\<close> inserts an empty storage when there is none.
\<close>

definition find_storage :: "'v registry \<Rightarrow> family_id \<Rightarrow> nat option" where
  "find_storage r family = sparse_set_find_dense_index sparse_indexer (keys (storages r)) family"

definition storage_at :: "'v registry \<Rightarrow> nat \<Rightarrow> 'v component_storage" where
  "storage_at r i = vals (storages r) ! i"

definition set_storage_at :: "'v registry \<Rightarrow> nat \<Rightarrow> 'v component_storage \<Rightarrow> 'v registry" where
  "set_storage_at r i st = r\<lparr>storages := (storages r)\<lparr>vals := (vals (storages r))[i := st]\<rparr>\<rparr>"

definition get_or_create_storage ::
  "platform \<Rightarrow> 'v registry \<Rightarrow> family_id \<Rightarrow> error + (nat \<times> 'v registry)" where
  "get_or_create_storage p r family =
     (case find_storage r family of
        Some i \<Rightarrow> Inr (i, r)
      | None \<Rightarrow>
          (case sparse_map_insert sparse_indexer (sparse_max_size p) (storages r) family
                  sparse_map_empty of
             Inl e \<Rightarrow> Inl e
           | Inr (b, m) \<Rightarrow>
               (case sparse_set_get_dense_index sparse_indexer (keys m) family of
                  Inl e \<Rightarrow> Inl e
                | Inr i \<Rightarrow> Inr (i, r\<lparr>storages := m\<rparr>))))"

definition assign_component ::
  "platform \<Rightarrow> 'v registry \<Rightarrow> family_id \<Rightarrow> entity_id \<Rightarrow> 'v \<Rightarrow> error + 'v registry" where
  "assign_component p r family ent v =
     (if assertions p \<and> \<not> valid_entity r ent then Inl Assertion_failed
      else
        (case get_or_create_storage p r family of
           Inl e \<Rightarrow> Inl e
         | Inr (i, r') \<Rightarrow>
             (case storage_assign p (storage_at r' i) ent v of
                Inl e \<Rightarrow> Inl e
              | Inr st \<Rightarrow> Inr (set_storage_at r' i st))))"

definition ensure_component ::
  "platform \<Rightarrow> 'v registry \<Rightarrow> family_id \<Rightarrow> entity_id \<Rightarrow> 'v \<Rightarrow> error + 'v registry" where
  "ensure_component p r family ent v =
     (if assertions p \<and> \<not> valid_entity r ent then Inl Assertion_failed
      else
        (case get_or_create_storage p r family of
           Inl e \<Rightarrow> Inl e
         | Inr (i, r') \<Rightarrow>
             (case storage_ensure p (storage_at r' i) ent v of
                Inl e \<Rightarrow> Inl e
              | Inr st \<Rightarrow> Inr (set_storage_at r' i st))))"

definition remove_component ::
  "platform \<Rightarrow> 'v registry \<Rightarrow> family_id \<Rightarrow> entity_id \<Rightarrow> error + (bool \<times> 'v registry)" where
  "remove_component p r family ent =
     (if assertions p \<and> \<not> valid_entity r ent then Inl Assertion_failed
      else
        (case find_storage r family of
           Some i \<Rightarrow>
             (let (b, st) = storage_remove (storage_at r i) ent
              in Inr (b, set_storage_at r i st))
         | None \<Rightarrow> Inr (False, r)))"

definition exists_component ::
  "platform \<Rightarrow> 'v registry \<Rightarrow> family_id \<Rightarrow> entity_id \<Rightarrow> error + bool" where
  "exists_component p r family ent =
     (if assertions p \<and> \<not> valid_entity r ent then Inl Assertion_failed
      else
        (case find_storage r family of
           Some i \<Rightarrow> Inr (storage_exists (storage_at r i) ent)
         | None \<Rightarrow> Inr False))"

definition find_component ::
  "platform \<Rightarrow> 'v registry \<Rightarrow> family_id \<Rightarrow> entity_id \<Rightarrow> error + 'v option" where
  "find_component p r family ent =
     (if assertions p \<and> \<not> valid_entity r ent then Inl Assertion_failed
      else
        (case find_storage r family of
           Some i \<Rightarrow> Inr (storage_find (storage_at r i) ent)
         | None \<Rightarrow> Inr None))"

definition get_component ::
  "platform \<Rightarrow> 'v registry \<Rightarrow> family_id \<Rightarrow> entity_id \<Rightarrow> error + 'v" where
  "get_component p r family ent =
     (if assertions p \<and> \<not> valid_entity r ent then Inl Assertion_failed
      else
        (case find_component p r family ent of
           Inl e \<Rightarrow> Inl e
         | Inr (Some c) \<Rightarrow> Inr c
         | Inr None \<Rightarrow> Inl Logic_error))"

text \<open>
  \<open>remove_all_components(ent)\<close> walks the table of storages in dense order and removes
  the entity from each; the count of the storages that held it is returned.
\<close>

fun remove_all_components_loop ::
  "(family_id, 'v component_storage) sparse_map \<Rightarrow> entity_id \<Rightarrow> family_id list \<Rightarrow> nat
     \<Rightarrow> error + (nat \<times> (family_id, 'v component_storage) sparse_map)" where
  "remove_all_components_loop m ent [] removed_count = Inr (removed_count, m)"
| "remove_all_components_loop m ent (family # families) removed_count =
     (case sparse_set_get_dense_index sparse_indexer (keys m) family of
        Inl e \<Rightarrow> Inl e
      | Inr i \<Rightarrow>
          (let (b, st) = storage_remove (vals m ! i) ent
           in remove_all_components_loop (m\<lparr>vals := (vals m)[i := st]\<rparr>) ent families
                (if b then removed_count + 1 else removed_count)))"

definition remove_all_components ::
  "platform \<Rightarrow> 'v registry \<Rightarrow> entity_id \<Rightarrow> error + (nat \<times> 'v registry)" where
  "remove_all_components p r ent =
     (if assertions p \<and> \<not> valid_entity r ent then Inl Assertion_failed
      else
        (case remove_all_components_loop (storages r) ent (dense (keys (storages r))) 0 of
           Inl e \<Rightarrow> Inl e
         | Inr (n, m) \<Rightarrow> Inr (n, r\<lparr>storages := m\<rparr>)))"

definition remove_all_components_of :: "'v registry \<Rightarrow> family_id \<Rightarrow> nat \<times> 'v registry" where
  "remove_all_components_of r family =
     (case find_storage r family of
        Some i \<Rightarrow>
          (let (n, st) = storage_remove_all (storage_at r i) in (n, set_storage_at r i st))
      | None \<Rightarrow> (0, r))"

definition destroy_entity :: "platform \<Rightarrow> 'v registry \<Rightarrow> entity_id \<Rightarrow> error + 'v registry" where
  "destroy_entity p r ent =
     (if assertions p \<and> \<not> valid_entity r ent then Inl Assertion_failed
      else
        (case remove_all_components p r ent of
           Inl e \<Rightarrow> Inl e
         | Inr (n, r') \<Rightarrow>
             (case sparse_set_unordered_erase entity_id_indexer (entity_ids r') ent of
                (False, ids) \<Rightarrow> Inr r'
              | (True, ids) \<Rightarrow>
                  if assertions p
                     \<and> \<not> length (free_entity_ids r') < free_entity_ids_capacity r'
                  then Inl Assertion_failed
                  else Inr (r'\<lparr>entity_ids := ids,
                              free_entity_ids := free_entity_ids r' @ [ent],
                              free_entity_ids_capacity :=
                                vector_push_back_capacity (length (free_entity_ids r'))
                                  (free_entity_ids_capacity r')\<rparr>))))"

section \<open>Operations of the registry as data\<close>

text \<open>
  The operations that change a registry, to speak of sequences of them. Each operation
  on an entity has the precondition the source asserts: the entity is valid.
\<close>

datatype 'v registry_op =
    Create_entity
  | Destroy_entity entity_id
  | Assign_component family_id entity_id 'v
  | Ensure_component family_id entity_id 'v
  | Remove_component family_id entity_id
  | Remove_all_components entity_id
  | Remove_all_components_of family_id

fun registry_step :: "platform \<Rightarrow> 'v registry \<Rightarrow> 'v registry_op \<Rightarrow> error + 'v registry" where
  "registry_step p r Create_entity =
     (case create_entity p r of (Inl e, r') \<Rightarrow> Inl e | (Inr ent, r') \<Rightarrow> Inr r')"
| "registry_step p r (Destroy_entity ent) = destroy_entity p r ent"
| "registry_step p r (Assign_component family ent v) = assign_component p r family ent v"
| "registry_step p r (Ensure_component family ent v) = ensure_component p r family ent v"
| "registry_step p r (Remove_component family ent) =
     (case remove_component p r family ent of Inl e \<Rightarrow> Inl e | Inr (b, r') \<Rightarrow> Inr r')"
| "registry_step p r (Remove_all_components ent) =
     (case remove_all_components p r ent of Inl e \<Rightarrow> Inl e | Inr (n, r') \<Rightarrow> Inr r')"
| "registry_step p r (Remove_all_components_of family) = Inr (snd (remove_all_components_of r family))"

fun op_precondition :: "'v registry \<Rightarrow> 'v registry_op \<Rightarrow> bool" where
  "op_precondition r Create_entity = True"
| "op_precondition r (Destroy_entity ent) = valid_entity r ent"
| "op_precondition r (Assign_component family ent v) = valid_entity r ent"
| "op_precondition r (Ensure_component family ent v) = valid_entity r ent"
| "op_precondition r (Remove_component family ent) = valid_entity r ent"
| "op_precondition r (Remove_all_components ent) = valid_entity r ent"
| "op_precondition r (Remove_all_components_of family) = True"

text \<open>
  A run of operations stops at the first exception or failed assertion, and, as
  \<open>Assertion_failed\<close>, at an operation whose precondition does not hold.
\<close>

fun registry_run :: "platform \<Rightarrow> 'v registry \<Rightarrow> 'v registry_op list \<Rightarrow> error + 'v registry" where
  "registry_run p r [] = Inr r"
| "registry_run p r (x # xs) =
     (if \<not> op_precondition r x then Inl Assertion_failed
      else (case registry_step p r x of Inl e \<Rightarrow> Inl e | Inr r' \<Rightarrow> registry_run p r' xs))"

text \<open>
  The id an operation issues (a successful \<open>create_entity\<close> issues one), and how often
  a run of operations issues an id with the index \<open>i\<close>.
\<close>

fun issued_id :: "platform \<Rightarrow> 'v registry \<Rightarrow> 'v registry_op \<Rightarrow> entity_id option" where
  "issued_id p r Create_entity =
     (case fst (create_entity p r) of Inl e \<Rightarrow> None | Inr ent \<Rightarrow> Some ent)"
| "issued_id p r x = None"

fun slot_issues :: "platform \<Rightarrow> 'v registry \<Rightarrow> 'v registry_op list \<Rightarrow> entity_id \<Rightarrow> nat" where
  "slot_issues p r [] i = 0"
| "slot_issues p r (x # xs) i =
     (case registry_step p r x of
        Inl e \<Rightarrow> 0
      | Inr r' \<Rightarrow>
          (if map_option entity_id_index (issued_id p r x) = Some i then 1 else 0)
          + slot_issues p r' xs i)"

text \<open>
  Destroying the entity \<open>ent\<close> and creating an entity again, \<open>n\<close> times over: with
  nothing else free, each round reissues the slot of \<open>ent\<close>.
\<close>

fun recycle_ops :: "entity_id \<Rightarrow> nat \<Rightarrow> 'v registry_op list" where
  "recycle_ops ent 0 = []"
| "recycle_ops ent (Suc n) =
     Destroy_entity ent # Create_entity # recycle_ops (upgrade_entity_id ent) n"

text \<open>
  A platform for the examples: the \<open>max_size()\<close> of libstdc++ on a 64-bit target, with
  assertions compiled in.
\<close>

definition lp64 :: platform where
  "lp64 = \<lparr>sparse_max_size = 1152921504606846975, ids_max_size = 2305843009213693951,
           assertions = True\<rparr>"

text \<open>The registries a program can reach from the empty one.\<close>

inductive reachable :: "platform \<Rightarrow> 'v registry \<Rightarrow> bool" for p :: platform where
  reachable_empty: "reachable p registry_empty"
| reachable_step:
    "reachable p r \<Longrightarrow> op_precondition r x \<Longrightarrow> registry_step p r x = Inr r' \<Longrightarrow> reachable p r'"

text \<open>
  The platform assumption: both vectors can hold as many elements as there are entity
  indices.
\<close>

definition platform_ok :: "platform \<Rightarrow> bool" where
  "platform_ok p \<longleftrightarrow> 2 ^ 22 \<le> sparse_max_size p \<and> 2 ^ 22 \<le> ids_max_size p"

text \<open>
  Invariants of the registry. The live and the free ids have pairwise different indices,
  none above \<open>last_entity_id\<close>; the capacity of the free list covers the free and the
  live ids together. The table of storages and every storage are well formed, and a
  storage holds live ids only.
\<close>

definition entities_inv :: "'v registry \<Rightarrow> bool" where
  "entities_inv r \<longleftrightarrow>
     ss_wf entity_id_indexer (entity_ids r)
     \<and> distinct (map entity_id_index (dense (entity_ids r) @ free_entity_ids r))
     \<and> (\<forall>e \<in> set (dense (entity_ids r) @ free_entity_ids r).
          0 < entity_id_index e \<and> entity_id_index e \<le> last_entity_id r)
     \<and> last_entity_id r \<le> entity_id_index_mask
     \<and> length (free_entity_ids r) + length (dense (entity_ids r)) \<le> free_entity_ids_capacity r"

definition sm_wf :: "('k \<Rightarrow> nat) \<Rightarrow> ('k, 'v) sparse_map \<Rightarrow> bool" where
  "sm_wf ix m \<longleftrightarrow> ss_wf ix (keys m) \<and> length (vals m) = length (dense (keys m))"

definition storages_inv :: "'v registry \<Rightarrow> bool" where
  "storages_inv r \<longleftrightarrow>
     sm_wf sparse_indexer (storages r)
     \<and> (\<forall>st \<in> set (vals (storages r)).
          sm_wf entity_id_indexer st
          \<and> set (dense (keys st)) \<subseteq> set (dense (entity_ids r)))"

definition registry_inv :: "'v registry \<Rightarrow> bool" where
  "registry_inv r \<longleftrightarrow> entities_inv r \<and> storages_inv r"

text \<open>
  The component of a type that an entity has, read as \<open>find_component\<close> reads it but
  without the assertion.
\<close>

definition component_at :: "'v registry \<Rightarrow> family_id \<Rightarrow> entity_id \<Rightarrow> 'v option" where
  "component_at r family ent =
     (case find_storage r family of
        Some i \<Rightarrow> storage_find (storage_at r i) ent
      | None \<Rightarrow> None)"

text \<open>
  The slot of \<open>e\<close> after \<open>k\<close> reissues: the one id with the index of \<open>e\<close>, live or
  free, has the version of \<open>e\<close> advanced \<open>k\<close> times, and it is live only after a reissue.
\<close>

definition slot_state :: "'v registry \<Rightarrow> entity_id \<Rightarrow> nat \<Rightarrow> bool" where
  "slot_state r e k \<longleftrightarrow>
     (\<exists>x \<in> set (dense (entity_ids r) @ free_entity_ids r).
        entity_id_index x = entity_id_index e
        \<and> entity_id_version x = (entity_id_version e + of_nat k) AND entity_id_version_mask
        \<and> (x \<in> set (dense (entity_ids r)) \<longrightarrow> 0 < k))"

section \<open>Options\<close>

text \<open>
  The options of the library: \<open>exists<T>\<close>, \<open>exists_any<Ts...>\<close>, \<open>exists_all<Ts...>\<close>,
  \<open>option_neg\<close>, \<open>option_conj\<close>, \<open>option_disj\<close> and \<open>option_bool\<close>. Calling an option on
  an entity calls \<open>exists_component\<close>, which asserts that the entity is valid; the fold
  expressions \<open>(... && x)\<close> and \<open>(... || x)\<close> evaluate from the left and stop at the first
  operand that decides them.
\<close>

datatype ecs_option =
    Exists family_id
  | Exists_any "family_id list"
  | Exists_all "family_id list"
  | Option_neg ecs_option
  | Option_conj "ecs_option list"
  | Option_disj "ecs_option list"
  | Option_bool bool

fun conj_fold :: "('a \<Rightarrow> error + bool) \<Rightarrow> 'a list \<Rightarrow> error + bool" where
  "conj_fold f [] = Inr True"
| "conj_fold f (x # xs) =
     (case f x of Inl e \<Rightarrow> Inl e | Inr b \<Rightarrow> if b then conj_fold f xs else Inr False)"

fun disj_fold :: "('a \<Rightarrow> error + bool) \<Rightarrow> 'a list \<Rightarrow> error + bool" where
  "disj_fold f [] = Inr False"
| "disj_fold f (x # xs) =
     (case f x of Inl e \<Rightarrow> Inl e | Inr b \<Rightarrow> if b then Inr True else disj_fold f xs)"

fun option_eval :: "platform \<Rightarrow> 'v registry \<Rightarrow> entity_id \<Rightarrow> ecs_option \<Rightarrow> error + bool"
  and option_conj_eval :: "platform \<Rightarrow> 'v registry \<Rightarrow> entity_id \<Rightarrow> ecs_option list \<Rightarrow> error + bool"
  and option_disj_eval :: "platform \<Rightarrow> 'v registry \<Rightarrow> entity_id \<Rightarrow> ecs_option list \<Rightarrow> error + bool"
  where
  "option_eval p r ent (Exists t) = exists_component p r t ent"
| "option_eval p r ent (Exists_any ts) = disj_fold (\<lambda>t. exists_component p r t ent) ts"
| "option_eval p r ent (Exists_all ts) = conj_fold (\<lambda>t. exists_component p r t ent) ts"
| "option_eval p r ent (Option_neg opt) =
     (case option_eval p r ent opt of Inl e \<Rightarrow> Inl e | Inr b \<Rightarrow> Inr (\<not> b))"
| "option_eval p r ent (Option_conj opts) = option_conj_eval p r ent opts"
| "option_eval p r ent (Option_disj opts) = option_disj_eval p r ent opts"
| "option_eval p r ent (Option_bool b) = Inr b"
| "option_conj_eval p r ent [] = Inr True"
| "option_conj_eval p r ent (opt # opts) =
     (case option_eval p r ent opt of
        Inl e \<Rightarrow> Inl e
      | Inr b \<Rightarrow> if b then option_conj_eval p r ent opts else Inr False)"
| "option_disj_eval p r ent [] = Inr False"
| "option_disj_eval p r ent (opt # opts) =
     (case option_eval p r ent opt of
        Inl e \<Rightarrow> Inl e
      | Inr b \<Rightarrow> if b then Inr True else option_disj_eval p r ent opts)"

section \<open>Iteration\<close>

text \<open>
  The user's functor works on an accumulator of its own and does not touch the registry;
  it gets the entity and, in joined iteration, the list of the component values.
  \<open>for_each_entity\<close> walks the live ids in dense order and calls the functor where the
  conjunction of the options holds. It holds the lock of the entity ids, which the options
  do not take, and no lock of a storage.
\<close>

fun for_each_entity_loop ::
  "platform \<Rightarrow> 'v registry \<Rightarrow> (entity_id \<Rightarrow> 'a \<Rightarrow> 'a) \<Rightarrow> ecs_option list \<Rightarrow> entity_id list \<Rightarrow> 'a
     \<Rightarrow> error + 'a" where
  "for_each_entity_loop p r f opts [] acc = Inr acc"
| "for_each_entity_loop p r f opts (e # es) acc =
     (case option_conj_eval p r e opts of
        Inl x \<Rightarrow> Inl x
      | Inr b \<Rightarrow> for_each_entity_loop p r f opts es (if b then f e acc else acc))"

definition for_each_entity ::
  "platform \<Rightarrow> 'v registry \<Rightarrow> (entity_id \<Rightarrow> 'a \<Rightarrow> 'a) \<Rightarrow> ecs_option list \<Rightarrow> 'a \<Rightarrow> error + 'a" where
  "for_each_entity p r f opts acc =
     for_each_entity_loop p r f opts (dense (entity_ids r)) acc"

text \<open>
  Inside the callback of \<open>for_each_component\<close> the lock of the storage is held. There the
  options are called: \<open>exists<T>\<close> calls \<open>exists_component<T>\<close>, which takes a
  \<open>shared_lock\<close> of the storage of \<open>T\<close>. \<open>exists_component_held\<close> and \<open>option_eval_held\<close>
  are \<open>exists_component\<close> and the options as a thread runs them that holds the locks
  \<open>held\<close>; with no lock held they are \<open>exists_component\<close> and \<open>option_eval\<close>.
\<close>

definition exists_component_held ::
  "platform \<Rightarrow> 'v registry \<Rightarrow> nat list \<Rightarrow> family_id \<Rightarrow> entity_id \<Rightarrow> error + bool" where
  "exists_component_held p r held family ent =
     (if assertions p \<and> \<not> valid_entity r ent then Inl Assertion_failed
      else (case find_storage r family of
              Some i \<Rightarrow>
                (case acquire held i of
                   Inl e \<Rightarrow> Inl e
                 | Inr u \<Rightarrow> Inr (storage_exists (storage_at r i) ent))
            | None \<Rightarrow> Inr False))"

fun option_eval_held ::
    "platform \<Rightarrow> 'v registry \<Rightarrow> nat list \<Rightarrow> entity_id \<Rightarrow> ecs_option \<Rightarrow> error + bool"
  and option_conj_eval_held ::
    "platform \<Rightarrow> 'v registry \<Rightarrow> nat list \<Rightarrow> entity_id \<Rightarrow> ecs_option list \<Rightarrow> error + bool"
  and option_disj_eval_held ::
    "platform \<Rightarrow> 'v registry \<Rightarrow> nat list \<Rightarrow> entity_id \<Rightarrow> ecs_option list \<Rightarrow> error + bool"
  where
  "option_eval_held p r held ent (Exists t) = exists_component_held p r held t ent"
| "option_eval_held p r held ent (Exists_any ts) =
     disj_fold (\<lambda>t. exists_component_held p r held t ent) ts"
| "option_eval_held p r held ent (Exists_all ts) =
     conj_fold (\<lambda>t. exists_component_held p r held t ent) ts"
| "option_eval_held p r held ent (Option_neg opt) =
     (case option_eval_held p r held ent opt of Inl e \<Rightarrow> Inl e | Inr b \<Rightarrow> Inr (\<not> b))"
| "option_eval_held p r held ent (Option_conj opts) = option_conj_eval_held p r held ent opts"
| "option_eval_held p r held ent (Option_disj opts) = option_disj_eval_held p r held ent opts"
| "option_eval_held p r held ent (Option_bool b) = Inr b"
| "option_conj_eval_held p r held ent [] = Inr True"
| "option_conj_eval_held p r held ent (opt # opts) =
     (case option_eval_held p r held ent opt of
        Inl e \<Rightarrow> Inl e
      | Inr b \<Rightarrow> if b then option_conj_eval_held p r held ent opts else Inr False)"
| "option_disj_eval_held p r held ent [] = Inr False"
| "option_disj_eval_held p r held ent (opt # opts) =
     (case option_eval_held p r held ent opt of
        Inl e \<Rightarrow> Inl e
      | Inr b \<Rightarrow> if b then Inr True else option_disj_eval_held p r held ent opts)"

text \<open>
  \<open>registry::for_each_component\<close> (the non-const overload), called by a thread that holds
  no lock of a storage: the callback of the storage evaluates the options and then calls
  the functor, both under the lock of the storage.
\<close>

definition for_each_component ::
  "platform \<Rightarrow> 'v registry \<Rightarrow> family_id \<Rightarrow> (nat list \<Rightarrow> entity_id \<Rightarrow> 'v \<Rightarrow> 'a \<Rightarrow> error + 'a)
     \<Rightarrow> ecs_option list \<Rightarrow> 'a \<Rightarrow> error + 'a" where
  "for_each_component p r t f opts acc =
     (case find_storage r t of
        Some i \<Rightarrow>
          storage_for_each_component [] i
            (\<lambda>held e c acc'.
               case option_conj_eval_held p r held e opts of
                 Inl x \<Rightarrow> Inl x
               | Inr b \<Rightarrow> if b then f held e c acc' else Inr acc')
            (storage_at r i) acc
      | None \<Rightarrow> Inr acc)"

text \<open>
  \<open>for_joined_components_impl_\<close> for one entity (the non-const overload): look the entity
  up in the storages that are left, collecting the values; call the functor when every
  storage had one. The non-const \<open>find\<close> of a storage takes a \<open>unique_lock\<close> of the storage
  and releases it when it returns. The user's functor works on an accumulator of its own
  and does not touch the registry.
\<close>

fun for_joined_components_impl ::
  "'v registry \<Rightarrow> nat list \<Rightarrow> entity_id \<Rightarrow> (entity_id \<Rightarrow> 'v list \<Rightarrow> 'a \<Rightarrow> 'a) \<Rightarrow> nat list
     \<Rightarrow> 'v list \<Rightarrow> 'a \<Rightarrow> error + 'a" where
  "for_joined_components_impl r held e f [] cs acc = Inr (f e cs acc)"
| "for_joined_components_impl r held e f (s # ss) cs acc =
     (case acquire held s of
        Inl x \<Rightarrow> Inl x
      | Inr u \<Rightarrow>
          (case storage_find (storage_at r s) e of
             Some c \<Rightarrow> for_joined_components_impl r held e f ss (cs @ [c]) acc
           | None \<Rightarrow> Inr acc))"

text \<open>
  \<open>for_joined_components\<close> (the non-const overload): with no types it is
  \<open>for_each_entity\<close>; otherwise it finds the storages of \<open>T2,...,Tn\<close>, returns if one of
  them does not exist, and drives the iteration with the storage of \<open>T1\<close>.
\<close>

definition for_joined_components ::
  "platform \<Rightarrow> 'v registry \<Rightarrow> family_id list \<Rightarrow> (entity_id \<Rightarrow> 'v list \<Rightarrow> 'a \<Rightarrow> 'a)
     \<Rightarrow> ecs_option list \<Rightarrow> 'a \<Rightarrow> error + 'a" where
  "for_joined_components p r types f opts acc =
     (case types of
        [] \<Rightarrow> for_each_entity p r (\<lambda>e. f e []) opts acc
      | t # ts \<Rightarrow>
          let ss = map (find_storage r) ts in
          if None \<in> set ss then Inr acc
          else for_each_component p r t
                 (\<lambda>held e c. for_joined_components_impl r held e f (map the ss) [c]) opts acc)"


text \<open>A functor that records its calls.\<close>

definition record_call ::
  "entity_id \<Rightarrow> 'v list \<Rightarrow> (entity_id \<times> 'v list) list \<Rightarrow> (entity_id \<times> 'v list) list" where
  "record_call e cs calls = calls @ [(e, cs)]"

section \<open>Prototype\<close>

text \<open>
  A prototype is a sparse map from component types to appliers. The applier stored for a
  type \<open>T\<close> is a \<open>typed_applier_with_args<T, Args...>\<close>; it is modelled by the value
  \<open>T{args...}\<close> it constructs, its type being the key it is stored under.
\<close>

type_synonym 'v prototype = "(family_id, 'v) sparse_map"

definition prototype_component ::
  "platform \<Rightarrow> 'v prototype \<Rightarrow> family_id \<Rightarrow> 'v \<Rightarrow> error + 'v prototype" where
  "prototype_component p proto t v =
     (case sparse_map_insert_or_assign sparse_indexer (sparse_max_size p) proto t v of
        Inl e \<Rightarrow> Inl e
      | Inr (b, proto') \<Rightarrow> Inr proto')"

definition applier_apply_to_entity ::
  "platform \<Rightarrow> 'v registry \<Rightarrow> family_id \<Rightarrow> 'v \<Rightarrow> entity_id \<Rightarrow> bool \<Rightarrow> error + 'v registry" where
  "applier_apply_to_entity p r t v ent override =
     (case (if override then Inr True
            else (case exists_component p r t ent of
                    Inl e \<Rightarrow> Inl e
                  | Inr b \<Rightarrow> Inr (\<not> b))) of
        Inl e \<Rightarrow> Inl e
      | Inr go \<Rightarrow> if go then assign_component p r t ent v else Inr r)"

fun prototype_apply_loop ::
  "platform \<Rightarrow> 'v prototype \<Rightarrow> entity_id \<Rightarrow> bool \<Rightarrow> family_id list \<Rightarrow> 'v registry
     \<Rightarrow> error + 'v registry" where
  "prototype_apply_loop p proto ent override [] r = Inr r"
| "prototype_apply_loop p proto ent override (family # families) r =
     (case sparse_map_get sparse_indexer proto family of
        Inl e \<Rightarrow> Inl e
      | Inr v \<Rightarrow>
          (case applier_apply_to_entity p r family v ent override of
             Inl e \<Rightarrow> Inl e
           | Inr r' \<Rightarrow> prototype_apply_loop p proto ent override families r'))"

definition prototype_apply_to_entity ::
  "platform \<Rightarrow> 'v registry \<Rightarrow> 'v prototype \<Rightarrow> entity_id \<Rightarrow> bool \<Rightarrow> error + 'v registry" where
  "prototype_apply_to_entity p r proto ent override =
     prototype_apply_loop p proto ent override (dense (keys proto)) r"

section \<open>Features and systems\<close>

text \<open>
  An event is a value of a user type, or such a value wrapped in \<open>before\<close> or \<open>after\<close>.
  A system gives, for an event, the handler \<open>process(owner, event)\<close> it has for the type
  of the event, or nothing when it does not implement \<open>system<E>\<close> for that type (the
  \<open>dynamic_cast\<close> fails). A handler is a function on a state \<open>'s\<close>, which stands for the
  registry and whatever else the handlers read and write; handlers return normally.
\<close>

datatype 'e event = Event 'e | Before "'e event" | After "'e event"

type_synonym ('e, 's) system = "'e event \<Rightarrow> ('s \<Rightarrow> 's) option"




fun fire_event :: "('e, 's) system list \<Rightarrow> 'e event \<Rightarrow> 's \<Rightarrow> 's" where
  "fire_event [] ev s = s"
| "fire_event (base_system # rest) ev s =
     (case base_system ev of
        Some process \<Rightarrow> fire_event rest ev (process s)
      | None \<Rightarrow> fire_event rest ev s)"






section \<open>An example registry\<close>

text \<open>
  The registry after creating two entities (ids \<open>1\<close> and \<open>2\<close>) and assigning to the
  first a component of type \<open>0\<close> (value \<open>5\<close>) and one of type \<open>1\<close> (value \<open>7\<close>), to the
  second one of type \<open>0\<close> (value \<open>6\<close>).
\<close>

definition example_ops :: "nat registry_op list" where
  "example_ops =
     [Create_entity, Create_entity,
      Assign_component 0 1 5, Assign_component 1 1 7, Assign_component 0 2 6]"

definition example_registry :: "nat registry" where
  "example_registry =
     \<lparr>last_entity_id = 2, free_entity_ids = [], free_entity_ids_capacity = 2,
      entity_ids = \<lparr>dense = [1, 2], sparse = [0, 0, 1, 0]\<rparr>,
      storages =
        \<lparr>keys = \<lparr>dense = [0, 1], sparse = [0, 1]\<rparr>,
         vals = [\<lparr>keys = \<lparr>dense = [1, 2], sparse = [0, 0, 1, 0]\<rparr>, vals = [5, 6]\<rparr>,
                 \<lparr>keys = \<lparr>dense = [1], sparse = [0, 0]\<rparr>, vals = [7]\<rparr>]\<rparr>\<rparr>"

text \<open>
  The prototype \<open>prototype().component<T0>(50).component<T2>(90)\<close>, with \<open>T0\<close> and \<open>T2\<close>
  the component types \<open>0\<close> and \<open>2\<close>.
\<close>

definition example_prototype :: "nat prototype" where
  "example_prototype = \<lparr>keys = \<lparr>dense = [0, 2], sparse = [0, 0, 1]\<rparr>, vals = [50, 90]\<rparr>"

section \<open>A registry with a stale handle\<close>

text \<open>
  The platform \<open>lp64\<close> with assertions compiled out (\<open>NDEBUG\<close> defined), and the
  registry after these operations: create an entity (id \<open>1\<close>), give it a component of
  type \<open>0\<close>, destroy it, create an entity again (the slot is reissued as id \<open>1 + 2^22\<close>)
  and give it a component of type \<open>0\<close> (value \<open>9\<close>). The handle \<open>1\<close> is stale: its slot
  is live under another version, and the storage of type \<open>0\<close> has a component at its
  index. \<open>misused_registry\<close> is what an \<open>NDEBUG\<close> program gets that, after the first three
  operations, assigns a component to the destroyed handle \<open>1\<close>.
\<close>

definition lp64_ndebug :: platform where
  "lp64_ndebug = lp64\<lparr>assertions := False\<rparr>"

definition stale_example_ops :: "nat registry_op list" where
  "stale_example_ops =
     [Create_entity, Assign_component 0 1 5, Destroy_entity 1, Create_entity,
      Assign_component 0 4194305 9]"

definition stale_example_registry :: "nat registry" where
  "stale_example_registry =
     \<lparr>last_entity_id = 1, free_entity_ids = [], free_entity_ids_capacity = 1,
      entity_ids = \<lparr>dense = [4194305], sparse = [0, 0]\<rparr>,
      storages =
        \<lparr>keys = \<lparr>dense = [0], sparse = [0]\<rparr>,
         vals = [\<lparr>keys = \<lparr>dense = [4194305], sparse = [0, 0]\<rparr>, vals = [9]\<rparr>]\<rparr>\<rparr>"

definition destroyed_registry :: "nat registry" where
  "destroyed_registry =
     \<lparr>last_entity_id = 1, free_entity_ids = [1], free_entity_ids_capacity = 1,
      entity_ids = \<lparr>dense = [], sparse = [0, 0]\<rparr>,
      storages =
        \<lparr>keys = \<lparr>dense = [0], sparse = [0]\<rparr>,
         vals = [\<lparr>keys = \<lparr>dense = [], sparse = [0, 0]\<rparr>, vals = []\<rparr>]\<rparr>\<rparr>"

definition misused_registry :: "nat registry" where
  "misused_registry =
     \<lparr>last_entity_id = 1, free_entity_ids = [1], free_entity_ids_capacity = 1,
      entity_ids = \<lparr>dense = [], sparse = [0, 0]\<rparr>,
      storages =
        \<lparr>keys = \<lparr>dense = [0], sparse = [0]\<rparr>,
         vals = [\<lparr>keys = \<lparr>dense = [1], sparse = [0, 0]\<rparr>, vals = [5]\<rparr>]\<rparr>\<rparr>"

chapter \<open>Properties\<close>

section \<open>Entity identifiers: packing and upgrading\<close>

lemma entity_id_masks:
  "entity_id_index_mask = mask 22" "entity_id_version_mask = mask 10"
  by (simp_all add: entity_id_index_mask_def entity_id_version_mask_def
      entity_id_index_bits_def entity_id_version_bits_def mask_eq_exp_minus_1)

lemma entity_id_masks_numeral:
  "entity_id_index_mask = 4194303" "entity_id_version_mask = 1023"
  by (simp_all add: entity_id_index_mask_def entity_id_version_mask_def
      entity_id_index_bits_def entity_id_version_bits_def)

lemma push_bit_version_mask:
  "push_bit 22 (x AND mask 10) = push_bit 22 (x :: 32 word)"
  by (rule bit_word_eqI) (auto simp: bit_simps)

lemma upgrade_masks_version:
  "upgrade_entity_id i =
     entity_id_join (entity_id_index i) ((entity_id_version i + 1) AND entity_id_version_mask)"
  unfolding upgrade_entity_id_def entity_id_join_def entity_id_masks entity_id_index_bits_def
  by (simp only: push_bit_version_mask)

lemma entity_id_index_join: "entity_id_index (entity_id_join i v) = entity_id_index i"
  unfolding entity_id_index_def entity_id_join_def entity_id_masks entity_id_index_bits_def
  by (rule bit_word_eqI) (auto simp: bit_simps)

lemma entity_id_index_idem: "entity_id_index (entity_id_index i) = entity_id_index i"
  by (simp add: entity_id_index_def)

lemma entity_id_index_small: "i < 2 ^ 22 \<Longrightarrow> entity_id_index i = i"
  unfolding entity_id_index_def entity_id_masks by (simp add: less_mask_eq)

lemma entity_id_version_join:
  assumes "entity_id_index i = i"
  shows "entity_id_version (entity_id_join i v) = v AND entity_id_version_mask"
proof (rule bit_word_eqI)
  fix n assume n: "n < LENGTH(32)"
  have i: "\<And>k. bit i k \<Longrightarrow> k < 22"
  proof -
    fix k assume "bit i k"
    then have "bit (i AND mask 22) k" using assms by (simp add: entity_id_index_def entity_id_masks)
    then show "k < 22" by (simp add: bit_simps)
  qed
  show "bit (entity_id_version (entity_id_join i v)) n = bit (v AND entity_id_version_mask) n"
    unfolding entity_id_version_def entity_id_join_def entity_id_masks entity_id_index_bits_def
    using n i[of "22 + n"] by (auto simp: bit_simps)
qed

lemma word_mod_version: "(x :: 32 word) mod 2 ^ 10 = x AND mask 10"
  by (rule word_mod_2p_is_mask) simp

lemma upgrade_entity_id_index: "entity_id_index (upgrade_entity_id i) = entity_id_index i"
  by (simp add: upgrade_entity_id_def entity_id_index_join entity_id_index_idem)

text \<open>
  Claim C2. For every 32-bit id, \<open>upgrade_entity_id\<close> is the join of the index with the
  version plus one, masked to ten bits; for an index below \<open>2^22\<close> and a version below
  \<open>2^10\<close> the upgraded version is \<open>(v + 1) mod 2^10\<close>, so that version \<open>2^10 - 1\<close>
  wraps to \<open>0\<close>.
\<close>

theorem upgrade_entity_id_join:
  "upgrade_entity_id id' =
     entity_id_join (entity_id_index id') ((entity_id_version id' + 1) AND entity_id_version_mask)
   \<and> (i < 2 ^ 22 \<longrightarrow> v < 2 ^ 10 \<longrightarrow>
        upgrade_entity_id (entity_id_join i v) = entity_id_join i ((v + 1) mod 2 ^ 10))"
proof (intro conjI impI)
  show "upgrade_entity_id id' =
     entity_id_join (entity_id_index id') ((entity_id_version id' + 1) AND entity_id_version_mask)"
    by (rule upgrade_masks_version)
next
  assume i: "i < 2 ^ 22" and v: "v < 2 ^ 10"
  have idx: "entity_id_index i = i" using i by (rule entity_id_index_small)
  then have ver: "entity_id_version (entity_id_join i v) = v"
    using v by (simp add: entity_id_version_join entity_id_masks less_mask_eq)
  show "upgrade_entity_id (entity_id_join i v) = entity_id_join i ((v + 1) mod 2 ^ 10)"
    by (simp only: upgrade_masks_version entity_id_index_join ver idx entity_id_masks
        word_mod_version)
qed

theorem upgrade_entity_id_join_witness:
  "(5 :: entity_id) < 2 ^ 22 \<and> (1023 :: entity_id) < 2 ^ 10
   \<and> upgrade_entity_id (entity_id_join 5 1023) = entity_id_join 5 0
   \<and> upgrade_entity_id 4290772997 = 5"
proof -
  have "upgrade_entity_id (entity_id_join 5 1023) = entity_id_join 5 ((1023 + 1) mod 2 ^ 10)"
    using upgrade_entity_id_join [of 0 5 1023] by simp
  moreover have "entity_id_join 5 1023 = 4290772997" "entity_id_join 5 0 = 5"
    by (simp_all add: entity_id_join_def entity_id_index_bits_def)
  ultimately show ?thesis by simp
qed

section \<open>Sparse set\<close>

lemma ss_wf_has: "ss_wf ix s \<Longrightarrow> sparse_set_has ix s v \<longleftrightarrow> v \<in> set (dense s)"
  unfolding ss_wf_def sparse_set_has_def Let_def
  by (auto simp: in_set_conv_nth)

lemma ss_wf_inj: "ss_wf ix s \<Longrightarrow> i < length (dense s) \<Longrightarrow> j < length (dense s) \<Longrightarrow>
   ix (dense s ! i) = ix (dense s ! j) \<Longrightarrow> i = j"
  unfolding ss_wf_def by metis

lemma ss_wf_distinct_ix: "ss_wf ix s \<Longrightarrow> distinct (map ix (dense s))"
  by (auto simp: distinct_conv_nth dest: ss_wf_inj)

lemma ss_wf_distinct: "ss_wf ix s \<Longrightarrow> distinct (dense s)"
  using ss_wf_distinct_ix distinct_map by blast

lemma ss_wf_empty: "ss_wf ix sparse_set_empty"
  by (simp add: ss_wf_def sparse_set_empty_def)

lemma ss_wf_clear: "ss_wf ix (sparse_set_clear s)"
  by (simp add: ss_wf_def sparse_set_clear_def)

lemma next_capacity_size_ge: "next_capacity_size c m mx = Inr n \<Longrightarrow> m \<le> n \<and> n \<le> mx"
  by (auto simp: next_capacity_size_def split: if_splits)

lemma next_capacity_size_ok: "m \<le> mx \<Longrightarrow> \<exists>n. next_capacity_size c m mx = Inr n"
  by (auto simp: next_capacity_size_def)

lemma vector_resize_length: "length (vector_resize xs n) = n"
  by (simp add: vector_resize_def)

lemma vector_resize_nth: "i < length xs \<Longrightarrow> length xs \<le> n \<Longrightarrow> vector_resize xs n ! i = xs ! i"
  by (simp add: vector_resize_def nth_append)

lemma size_max_numeral: "size_max = 18446744073709551615"
  by (simp add: size_max_def)

lemma size_t_add1_fits: "n < size_max \<Longrightarrow> size_t_add1 n = n + 1"
  by (simp add: size_t_add1_def)

lemma size_t_add1_small [simp]: "n < 18446744073709551615 \<Longrightarrow> size_t_add1 n = Suc n"
  by (simp add: size_t_add1_def size_max_numeral)

lemma sparse_set_insert_shape:
  assumes nh: "\<not> sparse_set_has ix s v"
    and res: "sparse_set_insert ix mx s v = Inr (b, s')"
  shows "\<exists>sp. length (sparse s) \<le> length sp \<and> ix v < length sp
      \<and> (\<forall>i < length (sparse s). sp ! i = sparse s ! i)
      \<and> s' = \<lparr>dense = dense s @ [v], sparse = sp[ix v := length (dense s)]\<rparr> \<and> b"
proof (cases "ix v \<ge> length (sparse s)")
  case True
  from nh res True obtain n where
    n: "next_capacity_size (length (sparse s)) (size_t_add1 (ix v)) mx = Inr n"
    by (cases "next_capacity_size (length (sparse s)) (size_t_add1 (ix v)) mx")
       (simp_all add: sparse_set_insert_def Let_def)
  from nh res True n have lt: "ix v < n"
    by (cases "ix v < n") (simp_all add: sparse_set_insert_def Let_def vector_resize_length)
  with nh res True n have
    eq: "(b, s') = (True, \<lparr>dense = dense s @ [v], sparse = (vector_resize (sparse s) n)[ix v := length (dense s)]\<rparr>)"
    by (simp add: sparse_set_insert_def Let_def vector_resize_length)
  from True lt have "length (sparse s) \<le> n" by simp
  then show ?thesis using eq lt
    by (intro exI[of _ "vector_resize (sparse s) n"]) (simp add: vector_resize_length vector_resize_nth)
next
  case False
  with nh res have "(b, s') = (True, \<lparr>dense = dense s @ [v], sparse = (sparse s)[ix v := length (dense s)]\<rparr>)"
    by (simp add: sparse_set_insert_def Let_def)
  with False show ?thesis by (intro exI[of _ "sparse s"]) simp
qed

lemma sparse_set_insert_new:
  assumes wf: "ss_wf ix s" and fresh: "\<forall>u \<in> set (dense s). ix u \<noteq> ix v"
    and res: "sparse_set_insert ix mx s v = Inr (b, s')"
  shows "b \<and> dense s' = dense s @ [v] \<and> ss_wf ix s'"
proof -
  have nh: "\<not> sparse_set_has ix s v" using wf fresh by (auto simp: ss_wf_has)
  from sparse_set_insert_shape[OF nh res] obtain sp where sp: "length (sparse s) \<le> length sp" "ix v < length sp"
    "\<forall>i < length (sparse s). sp ! i = sparse s ! i"
    and s': "s' = \<lparr>dense = dense s @ [v], sparse = sp[ix v := length (dense s)]\<rparr>" and b: "b"
    by blast
  have "ss_wf ix s'"
    unfolding ss_wf_def
  proof (intro allI impI)
    fix i assume "i < length (dense s')"
    then have i: "i < Suc (length (dense s))" by (simp add: s')
    show "ix (dense s' ! i) < length (sparse s') \<and> sparse s' ! ix (dense s' ! i) = i"
    proof (cases "i = length (dense s)")
      case True
      then show ?thesis using sp by (simp add: s')
    next
      case False
      with i have il: "i < length (dense s)" by simp
      then have "dense s ! i \<in> set (dense s)" by simp
      with fresh have ne: "ix (dense s ! i) \<noteq> ix v" by blast
      from wf il have a: "ix (dense s ! i) < length (sparse s)" "sparse s ! ix (dense s ! i) = i"
        by (auto simp: ss_wf_def)
      show ?thesis using il ne a sp by (simp add: s' nth_append)
    qed
  qed
  with b s' show ?thesis by simp
qed

lemma sparse_set_insert_present:
  "sparse_set_has ix s v \<Longrightarrow> sparse_set_insert ix mx s v = Inr (False, s)"
  by (simp add: sparse_set_insert_def)


lemma sparse_set_insert_ok:
  assumes "ix v < mx" and "ix v < size_max"
  shows "\<exists>b s'. sparse_set_insert ix mx s v = Inr (b, s')"
proof (cases "sparse_set_has ix s v")
  case True
  then show ?thesis by (auto simp: sparse_set_insert_present)
next
  case nh: False
  show ?thesis
  proof (cases "ix v \<ge> length (sparse s)")
    case True
    from assms(1) next_capacity_size_ok[of "ix v + 1" mx "length (sparse s)"]
    obtain n where n: "next_capacity_size (length (sparse s)) (ix v + 1) mx = Inr n" by auto
    from next_capacity_size_ge[OF n] have "ix v < n" by simp
    with nh True n show ?thesis
      by (auto simp: sparse_set_insert_def Let_def size_t_add1_fits[OF assms(2)] vector_resize_length)
  next
    case False
    with nh show ?thesis by (auto simp: sparse_set_insert_def Let_def)
  qed
qed

lemma sparse_set_erase_absent: "\<not> sparse_set_has ix s v \<Longrightarrow> sparse_set_unordered_erase ix s v = (False, s)"
  by (simp add: sparse_set_unordered_erase_def)

lemma sparse_set_erase_last:
  assumes has: "sparse_set_has ix s v" and k: "sparse s ! ix v = length (dense s) - 1"
  shows "sparse_set_unordered_erase ix s v = (True, \<lparr>dense = butlast (dense s), sparse = sparse s\<rparr>)"
  using has k by (simp add: sparse_set_unordered_erase_def Let_def)

lemma sparse_set_erase_inner:
  assumes has: "sparse_set_has ix s v" and k: "sparse s ! ix v \<noteq> length (dense s) - 1"
  shows "sparse_set_unordered_erase ix s v =
    (True, \<lparr>dense = (butlast (dense s))[sparse s ! ix v := last (dense s)],
            sparse = (sparse s)[ix (last (dense s)) := sparse s ! ix v]\<rparr>)"
proof -
  let ?k = "sparse s ! ix v" and ?n = "length (dense s)"
  from has have kn: "?k < ?n" by (simp add: sparse_set_has_def Let_def)
  then have ne: "dense s \<noteq> []" by auto
  show ?thesis using has k kn ne
    by (simp add: sparse_set_unordered_erase_def Let_def butlast_list_update last_conv_nth)
qed

lemma butlast_last_set:
  assumes "xs \<noteq> []" "distinct xs"
  shows "set xs = insert (last xs) (set (butlast xs))" "last xs \<notin> set (butlast xs)"
proof -
  have app: "xs = butlast xs @ [last xs]" using assms(1) by simp
  show "set xs = insert (last xs) (set (butlast xs))"
    by (subst app) simp
  have "distinct (butlast xs @ [last xs])" using assms(2) app by simp
  then show "last xs \<notin> set (butlast xs)" by simp
qed

lemma sparse_set_erase_wf_last:
  assumes wf: "ss_wf ix s" and has: "sparse_set_has ix s v"
    and k: "sparse s ! ix v = length (dense s) - 1"
    and s': "s' = \<lparr>dense = butlast (dense s), sparse = sparse s\<rparr>"
  shows "ss_wf ix s' \<and> set (dense s') = set (dense s) - {v}"
proof -
  from has have kn: "sparse s ! ix v < length (dense s)" and dk: "dense s ! (sparse s ! ix v) = v"
    by (simp_all add: sparse_set_has_def Let_def)
  then have ne: "dense s \<noteq> []" by auto
  have dist: "distinct (dense s)" using wf by (rule ss_wf_distinct)
  have lv: "last (dense s) = v" using k dk ne by (simp add: last_conv_nth)
  have wf': "ss_wf ix s'" using wf by (auto simp: ss_wf_def s' nth_butlast)
  have "set (butlast (dense s)) = set (dense s) - {v}"
    using butlast_last_set[OF ne dist] lv by auto
  with wf' show ?thesis by (simp add: s')
qed

lemma sparse_set_erase_wf_inner:
  assumes wf: "ss_wf ix s" and has: "sparse_set_has ix s v"
    and k: "sparse s ! ix v \<noteq> length (dense s) - 1"
    and s': "s' = \<lparr>dense = (butlast (dense s))[sparse s ! ix v := last (dense s)],
            sparse = (sparse s)[ix (last (dense s)) := sparse s ! ix v]\<rparr>"
  shows "ss_wf ix s' \<and> set (dense s') = set (dense s) - {v}"
proof -
  let ?k = "sparse s ! ix v" and ?n = "length (dense s)" and ?l = "last (dense s)"
  from has have kn: "?k < ?n" and dk: "dense s ! ?k = v"
    by (simp_all add: sparse_set_has_def Let_def)
  then have ne: "dense s \<noteq> []" by auto
  have kb: "?k < length (butlast (dense s))" using kn k by simp
  have dist: "distinct (dense s)" using wf by (rule ss_wf_distinct)
  have ln: "?l = dense s ! (?n - 1)" using ne by (simp add: last_conv_nth)
  have n1: "?n - 1 < ?n" using ne by simp
  have lwf: "ix ?l < length (sparse s)" using wf n1 unfolding ss_wf_def ln by blast
  have wf': "ss_wf ix s'"
    unfolding ss_wf_def
  proof (intro allI impI)
    fix i assume "i < length (dense s')"
    then have i: "i < ?n - 1" by (simp add: s')
    then have il: "i < ?n" by simp
    show "ix (dense s' ! i) < length (sparse s') \<and> sparse s' ! ix (dense s' ! i) = i"
    proof (cases "i = ?k")
      case True
      then show ?thesis using kb lwf by (simp add: s')
    next
      case False
      have el: "dense s' ! i = dense s ! i" using False i by (simp add: s' nth_butlast)
      have "ix (dense s ! i) \<noteq> ix ?l"
        using ss_wf_inj[OF wf il n1] i unfolding ln by auto
      moreover from wf il have "ix (dense s ! i) < length (sparse s)" "sparse s ! ix (dense s ! i) = i"
        by (auto simp: ss_wf_def)
      ultimately show ?thesis by (simp add: el) (simp add: s')
    qed
  qed
  have bk: "butlast (dense s) ! ?k = v" using kb dk by (simp add: nth_butlast)
  have lv: "?l \<noteq> v"
  proof
    assume "?l = v"
    then have "dense s ! (?n - 1) = dense s ! ?k" using ln dk by simp
    then have "?n - 1 = ?k" using dist n1 kn by (simp add: nth_eq_iff_index_eq)
    with k show False by simp
  qed
  have "set ((butlast (dense s))[?k := ?l]) = insert ?l (set (butlast (dense s)) - {v})"
    using set_update_distinct[OF distinct_butlast[OF dist] kb] bk by simp
  also have "\<dots> = set (dense s) - {v}"
    using butlast_last_set[OF ne dist] lv by auto
  finally show ?thesis using wf' by (simp add: s')
qed

lemma sparse_set_erase_wf:
  assumes wf: "ss_wf ix s" and res: "sparse_set_unordered_erase ix s v = (b, s')"
  shows "ss_wf ix s' \<and> set (dense s') = set (dense s) - {v} \<and> (b \<longleftrightarrow> v \<in> set (dense s))
    \<and> length (dense s') = (if b then length (dense s) - 1 else length (dense s))"
proof (cases "sparse_set_has ix s v")
  case False
  with res wf show ?thesis by (auto simp: sparse_set_erase_absent ss_wf_has)
next
  case True
  have vin: "v \<in> set (dense s)" using True wf by (simp add: ss_wf_has)
  from True have kn: "sparse s ! ix v < length (dense s)" by (simp add: sparse_set_has_def Let_def)
  show ?thesis
  proof (cases "sparse s ! ix v = length (dense s) - 1")
    case k: True
    with True res have s': "s' = \<lparr>dense = butlast (dense s), sparse = sparse s\<rparr>" and b: "b"
      by (simp_all add: sparse_set_erase_last)
    from sparse_set_erase_wf_last[OF wf True k s'] b vin show ?thesis by (simp add: s')
  next
    case k: False
    with True res have s': "s' = \<lparr>dense = (butlast (dense s))[sparse s ! ix v := last (dense s)],
            sparse = (sparse s)[ix (last (dense s)) := sparse s ! ix v]\<rparr>" and b: "b"
      by (simp_all add: sparse_set_erase_inner)
    from sparse_set_erase_wf_inner[OF wf True k s'] b vin show ?thesis by (simp add: s')
  qed
qed

subsection \<open>Runs of operations\<close>

lemma sparse_set_insert_fail:
  assumes "sparse_set_insert ix mx s v = Inl e" and "ix v < size_max"
  shows "\<not> sparse_set_has ix s v \<and> mx \<le> ix v \<and> e = Length_error"
proof -
  from assms(1) have nh: "\<not> sparse_set_has ix s v"
    by (cases "sparse_set_has ix s v") (simp_all add: sparse_set_insert_present)
  have "mx \<le> ix v"
  proof (rule ccontr)
    assume "\<not> mx \<le> ix v"
    then have "ix v < mx" by simp
    from sparse_set_insert_ok[of ix v mx s, OF this assms(2)] assms(1) show False by auto
  qed
  moreover have "e = Length_error"
  proof (cases "ix v \<ge> length (sparse s)")
    case True
    show ?thesis
    proof (cases "next_capacity_size (length (sparse s)) (ix v + 1) mx")
      case (Inl e')
      then have "e' = Length_error" by (auto simp: next_capacity_size_def split: if_splits)
      with Inl nh True assms show ?thesis
        by (simp add: sparse_set_insert_def Let_def size_t_add1_fits)
    next
      case (Inr n)
      from next_capacity_size_ge[OF Inr] have "ix v < n" by simp
      with Inr nh True assms show ?thesis
        by (simp add: sparse_set_insert_def Let_def size_t_add1_fits vector_resize_length)
    qed
  next
    case False
    with nh assms show ?thesis by (simp add: sparse_set_insert_def Let_def)
  qed
  ultimately show ?thesis using nh by simp
qed

lemma sparse_set_insert_sparse_bound:
  assumes "sparse_set_insert ix mx s v = Inr (b, s')" "length (sparse s) \<le> mx"
  shows "length (sparse s') \<le> mx \<and> ix v < mx"
proof (cases "sparse_set_has ix s v")
  case True
  with assms show ?thesis by (auto simp: sparse_set_insert_present sparse_set_has_def Let_def)
next
  case False
  show ?thesis
  proof (cases "ix v \<ge> length (sparse s)")
    case True
    from False assms(1) True obtain n where
      n: "next_capacity_size (length (sparse s)) (size_t_add1 (ix v)) mx = Inr n"
      by (cases "next_capacity_size (length (sparse s)) (size_t_add1 (ix v)) mx")
         (simp_all add: sparse_set_insert_def Let_def)
    from False assms(1) True n have lt: "ix v < n"
      by (cases "ix v < n") (simp_all add: sparse_set_insert_def Let_def vector_resize_length)
    with False assms(1) True n have "length (sparse s') = n"
      by (auto simp: sparse_set_insert_def Let_def vector_resize_length)
    with lt next_capacity_size_ge[OF n] show ?thesis by simp
  next
    case ge: False
    with False assms show ?thesis
      by (auto simp: sparse_set_insert_def Let_def)
  qed
qed

lemma sparse_set_erase_sparse_length:
  "length (sparse (snd (sparse_set_unordered_erase ix s v))) = length (sparse s)"
  by (cases "sparse_set_has ix s v"; cases "sparse s ! ix v = length (dense s) - 1")
     (simp_all add: sparse_set_erase_absent sparse_set_erase_last sparse_set_erase_inner)

lemma sparse_set_run_inv_step:
  assumes fits: "index_fits ix x" and nc: "\<not> collides ix A x"
    and inv: "sparse_set_run_inv ix mx s A"
  shows "\<exists>s'. sparse_set_step ix mx s x = Inr s'
             \<and> sparse_set_run_inv ix mx s' (present_step ix mx A x)"
proof (cases x)
  case (Insert v)
  from inv have wf: "ss_wf ix s" and len: "length (sparse s) \<le> mx" and A: "set (dense s) = A"
    by (simp_all add: sparse_set_run_inv_def)
  from fits Insert have fv: "ix v < size_max" by simp
  show ?thesis
  proof (cases "sparse_set_insert ix mx s v")
    case (Inl e)
    from sparse_set_insert_fail[OF Inl fv] have "mx \<le> ix v" and "e = Length_error" by simp_all
    with Inl inv show ?thesis by (simp add: Insert)
  next
    case (Inr r)
    obtain b s' where r: "r = (b, s')" by (cases r)
    from sparse_set_insert_sparse_bound[OF Inr[unfolded r] len]
    have len': "length (sparse s') \<le> mx" and lt: "ix v < mx" by simp_all
    show ?thesis
    proof (cases "sparse_set_has ix s v")
      case True
      with Inr r have "s' = s" by (simp add: sparse_set_insert_present)
      moreover from True wf A have "v \<in> A" by (simp add: ss_wf_has)
      ultimately show ?thesis using inv lt Inr r by (simp add: Insert insert_absorb)
    next
      case False
      with wf have "v \<notin> set (dense s)" by (simp add: ss_wf_has)
      with nc A Insert have "\<forall>u \<in> set (dense s). ix u \<noteq> ix v" by auto
      from sparse_set_insert_new[OF wf this Inr[unfolded r]] A len' lt Inr r
      show ?thesis by (simp add: Insert sparse_set_run_inv_def)
    qed
  qed
next
  case (Unordered_erase v)
  obtain b s' where r: "sparse_set_unordered_erase ix s v = (b, s')" by (cases "sparse_set_unordered_erase ix s v")
  from inv have wf: "ss_wf ix s" by (simp add: sparse_set_run_inv_def)
  from sparse_set_erase_wf[OF wf r] sparse_set_erase_sparse_length[of ix s v] inv r
  show ?thesis by (simp add: Unordered_erase sparse_set_run_inv_def)
next
  case Clear
  with inv show ?thesis by (simp add: sparse_set_run_inv_def ss_wf_clear) (simp add: sparse_set_clear_def)
qed

lemma sparse_set_run_inv_from:
  "\<forall>x \<in> set ops. index_fits ix x \<Longrightarrow> collision_free ix mx A ops
   \<Longrightarrow> sparse_set_run_inv ix mx s A
   \<Longrightarrow> \<exists>s'. sparse_set_run_from ix mx s ops = Inr s'
            \<and> sparse_set_run_inv ix mx s' (foldl (present_step ix mx) A ops)"
proof (induction ops arbitrary: s A)
  case Nil
  then show ?case by simp
next
  case (Cons x xs)
  from Cons.prems have fits: "index_fits ix x" and nc: "\<not> collides ix A x"
    and rest: "\<forall>x \<in> set xs. index_fits ix x" "collision_free ix mx (present_step ix mx A x) xs"
    by simp_all
  from sparse_set_run_inv_step[OF fits nc Cons.prems(3)] obtain s1 where
    s1: "sparse_set_step ix mx s x = Inr s1"
    and inv1: "sparse_set_run_inv ix mx s1 (present_step ix mx A x)" by blast
  from Cons.IH[OF rest inv1] s1 show ?case by simp
qed

lemma sparse_set_run_inv_run:
  assumes "\<forall>x \<in> set ops. index_fits ix x" and "collision_free ix mx {} ops"
  shows "\<exists>s. sparse_set_run ix mx ops = Inr s
           \<and> sparse_set_run_inv ix mx s (present_values ix mx ops)"
proof -
  have "sparse_set_run_inv ix mx sparse_set_empty {}"
    by (simp add: sparse_set_run_inv_def ss_wf_empty) (simp add: sparse_set_empty_def)
  from sparse_set_run_inv_from[OF assms this] show ?thesis
    by (simp add: sparse_set_run_def present_values_def)
qed

lemma collision_free_append:
  "collision_free ix mx A (xs @ ys) \<Longrightarrow> collision_free ix mx A xs"
  by (induction xs arbitrary: A) simp_all

lemma collision_free_take:
  "collision_free ix mx A ops \<Longrightarrow> collision_free ix mx A (take n ops)"
  using collision_free_append[of ix mx A "take n ops" "drop n ops"] by simp

text \<open>An injective indexer, such as the default \<open>sparse_indexer\<close>, never collides.\<close>

lemma inj_collision_free: "inj ix \<Longrightarrow> collision_free ix mx A ops"
proof (induction ops arbitrary: A)
  case Nil
  show ?case by simp
next
  case (Cons x xs)
  from Cons.prems have "\<not> collides ix A x" by (cases x) (auto dest: injD)
  with Cons.IH[OF Cons.prems] show ?case by simp
qed

lemma ss_wf_get_dense_index:
  assumes "ss_wf ix s"
  shows "sparse_set_get_dense_index ix s v =
     (if v \<in> set (dense s) then Inr (sparse s ! ix v) else Inl Logic_error)"
    and "v \<in> set (dense s) \<Longrightarrow> sparse s ! ix v < length (dense s) \<and> dense s ! (sparse s ! ix v) = v"
  using assms
  by (auto simp: sparse_set_get_dense_index_def sparse_set_find_dense_index_def ss_wf_has,
      auto simp: sparse_set_has_def Let_def ss_wf_has[symmetric])

lemma inj_sparse_indexer: "inj sparse_indexer"
  by (simp add: sparse_indexer_def inj_on_def word_unat_eq_iff)

lemma entity_id_indexer_examples: "entity_id_indexer 1 = 1" "entity_id_indexer 4194305 = 1"
  by (simp_all add: entity_id_indexer_def entity_id_index_def entity_id_masks_numeral)

lemma cex_insert_1: "sparse_set_insert entity_id_indexer 1152921504606846975 sparse_set_empty 1
   = Inr (True, \<lparr>dense = [1], sparse = [0, 0]\<rparr>)"
  by (simp add: sparse_set_empty_def sparse_set_insert_def sparse_set_has_def
      next_capacity_size_def vector_resize_def Let_def entity_id_indexer_examples)

lemma cex_insert_2: "sparse_set_insert entity_id_indexer 1152921504606846975 \<lparr>dense = [1], sparse = [0, 0]\<rparr> 4194305
   = Inr (True, \<lparr>dense = [1, 4194305], sparse = [0, 1]\<rparr>)"
  by (simp add: sparse_set_insert_def sparse_set_has_def Let_def entity_id_indexer_examples)


lemma replicate_numeral_unfold: "replicate (numeral k) x = x # replicate (pred_numeral k) x"
  by (simp add: numeral_eq_Suc)

lemma entity_id_indexer_2: "entity_id_indexer 2 = 2"
  by (simp add: entity_id_indexer_def entity_id_index_def entity_id_masks_numeral)

lemma sparse_set_run_collision:
  "sparse_set_run entity_id_indexer 1152921504606846975 [Insert 1, Insert 4194305]
     = Inr \<lparr>dense = [1, 4194305], sparse = [0, 1]\<rparr>"
  by (simp only: sparse_set_run_def sparse_set_run_from.simps sparse_set_step.simps
      cex_insert_1 cex_insert_2 sum.case prod.case)

lemma sparse_set_insert_size_max:
  "sparse_set_insert (sparse_indexer :: 64 word \<Rightarrow> nat) 1152921504606846975 sparse_set_empty
      18446744073709551615 = Inl Out_of_bounds"
  by (simp add: sparse_set_insert_def sparse_set_has_def sparse_set_empty_def Let_def
      sparse_indexer_def size_t_add1_def size_max_numeral next_capacity_size_def
      vector_resize_def)

lemma wit_insert_2:
  "sparse_set_insert entity_id_indexer 1152921504606846975 \<lparr>dense = [1], sparse = [0, 0]\<rparr> 2
     = Inr (True, \<lparr>dense = [1, 2], sparse = [0, 0, 1, 0]\<rparr>)"
  by (simp add: sparse_set_insert_def sparse_set_has_def next_capacity_size_def
      vector_resize_def Let_def entity_id_indexer_2 replicate_numeral_unfold)

lemma wit_erase_1:
  "sparse_set_unordered_erase entity_id_indexer \<lparr>dense = [1, 2], sparse = [0, 0, 1, 0]\<rparr> 1
     = (True, \<lparr>dense = [2], sparse = [0, 0, 0, 0]\<rparr>)"
  by (simp add: sparse_set_unordered_erase_def sparse_set_has_def Let_def
      entity_id_indexer_examples entity_id_indexer_2)

lemma wit_insert_reissued:
  "sparse_set_insert entity_id_indexer 1152921504606846975 \<lparr>dense = [2], sparse = [0, 0, 0, 0]\<rparr>
      4194305
     = Inr (True, \<lparr>dense = [2, 4194305], sparse = [0, 1, 0, 0]\<rparr>)"
  by (simp add: sparse_set_insert_def sparse_set_has_def Let_def entity_id_indexer_examples)

lemma wit_insert_2_again:
  "sparse_set_insert entity_id_indexer 1152921504606846975
      \<lparr>dense = [2, 4194305], sparse = [0, 1, 0, 0]\<rparr> 2
     = Inr (False, \<lparr>dense = [2, 4194305], sparse = [0, 1, 0, 0]\<rparr>)"
  by (simp add: sparse_set_insert_def sparse_set_has_def Let_def entity_id_indexer_2)

lemma sparse_set_run_example:
  "sparse_set_run entity_id_indexer 1152921504606846975
      [Insert 1, Insert 2, Unordered_erase 1, Insert 4194305, Insert 2]
     = Inr \<lparr>dense = [2, 4194305], sparse = [0, 1, 0, 0]\<rparr>"
  by (simp only: sparse_set_run_def sparse_set_run_from.simps sparse_set_step.simps
      cex_insert_1 wit_insert_2 wit_erase_1 wit_insert_reissued wit_insert_2_again
      sum.case prod.case snd_conv)

lemma present_values_example:
  "present_values entity_id_indexer 1152921504606846975
      [Insert 1, Insert 2, Unordered_erase 1, Insert 4194305, Insert 2] = {2, 4194305}"
  by (auto simp: present_values_def entity_id_indexer_examples entity_id_indexer_2)

lemma collision_free_example:
  "collision_free entity_id_indexer 1152921504606846975 {}
      [Insert 1, Insert 2, Unordered_erase 1, Insert 4194305, Insert 2]"
  by (auto simp: entity_id_indexer_examples entity_id_indexer_2)

lemma index_fits_example:
  "\<forall>x \<in> set [Insert 1, Insert 2, Unordered_erase 1, Insert 4194305, Insert 2].
     index_fits entity_id_indexer x"
  by (simp add: entity_id_indexer_examples entity_id_indexer_2 size_max_numeral)

text \<open>
  Claim C3, as amended. Take any indexer and any sequence of \<open>insert\<close>, \<open>unordered_erase\<close>
  and \<open>clear\<close> in which no inserted value has the index \<open>SIZE_MAX\<close> and no insert is given
  a value whose index is that of another value present at that moment. Then after each
  step (after the first \<open>n\<close> operations, for every \<open>n\<close>) the run has returned a set \<open>s\<close>
  with: \<open>v\<close> is present (inserted and not erased or cleared since) iff the index of \<open>v\<close>
  is within \<open>sparse\<close> and the sparse entry of \<open>v\<close> is a position of \<open>dense\<close> that holds \<open>v\<close>;
  \<open>has v\<close> holds iff \<open>v\<close> is present; \<open>dense\<close> holds exactly the present values, each
  once; \<open>get_dense_index v\<close> returns a position that holds \<open>v\<close> when \<open>v\<close> is present and
  throws a logic error otherwise.
\<close>

theorem sparse_set_run_invariant:
  assumes "\<forall>x \<in> set ops. index_fits ix x" and "collision_free ix mx {} ops"
    and "n \<le> length ops"
  shows "\<exists>s. sparse_set_run ix mx (take n ops) = Inr s
      \<and> (v \<in> present_values ix mx (take n ops) \<longleftrightarrow>
            ix v < length (sparse s) \<and> sparse s ! ix v < length (dense s)
            \<and> dense s ! (sparse s ! ix v) = v)
      \<and> (sparse_set_has ix s v \<longleftrightarrow> v \<in> present_values ix mx (take n ops))
      \<and> set (dense s) = present_values ix mx (take n ops)
      \<and> distinct (dense s)
      \<and> (case sparse_set_get_dense_index ix s v of
            Inr i \<Rightarrow> v \<in> present_values ix mx (take n ops) \<and> i < length (dense s)
                     \<and> dense s ! i = v
          | Inl e \<Rightarrow> v \<notin> present_values ix mx (take n ops) \<and> e = Logic_error)"
proof -
  from assms(1) have fits: "\<forall>x \<in> set (take n ops). index_fits ix x"
    by (auto dest: in_set_takeD)
  from sparse_set_run_inv_run[OF fits collision_free_take[OF assms(2)]] obtain s where
    run: "sparse_set_run ix mx (take n ops) = Inr s"
    and wf: "ss_wf ix s" and pv: "set (dense s) = present_values ix mx (take n ops)"
    by (auto simp: sparse_set_run_inv_def)
  have 2: "sparse_set_has ix s v \<longleftrightarrow> v \<in> set (dense s)" using wf by (rule ss_wf_has)
  have 1: "v \<in> set (dense s) \<longleftrightarrow>
            ix v < length (sparse s) \<and> sparse s ! ix v < length (dense s)
            \<and> dense s ! (sparse s ! ix v) = v"
    unfolding 2[symmetric] by (simp add: sparse_set_has_def Let_def)
  have 3: "distinct (dense s)" using wf by (rule ss_wf_distinct)
  have 4: "case sparse_set_get_dense_index ix s v of
            Inr i \<Rightarrow> v \<in> set (dense s) \<and> i < length (dense s) \<and> dense s ! i = v
          | Inl e \<Rightarrow> v \<notin> set (dense s) \<and> e = Logic_error"
    using ss_wf_get_dense_index[OF wf, of v] by (cases "v \<in> set (dense s)") simp_all
  show ?thesis
    unfolding pv[symmetric]
    by (intro exI[of _ s] conjI) (rule run, rule 1, rule 2, rule refl, rule 3, rule 4)
qed

theorem sparse_set_run_invariant_witness:
  "index_fits entity_id_indexer (Insert 1)
   \<and> index_fits entity_id_indexer (Insert 2)
   \<and> index_fits entity_id_indexer (Unordered_erase 1)
   \<and> index_fits entity_id_indexer (Insert 4194305)
   \<and> collision_free entity_id_indexer 1152921504606846975 {}
        [Insert 1, Insert 2, Unordered_erase 1, Insert 4194305, Insert 2]
   \<and> sparse_set_run entity_id_indexer 1152921504606846975
        [Insert 1, Insert 2, Unordered_erase 1, Insert 4194305, Insert 2]
       = Inr \<lparr>dense = [2, 4194305], sparse = [0, 1, 0, 0]\<rparr>
   \<and> present_values entity_id_indexer 1152921504606846975
        [Insert 1, Insert 2, Unordered_erase 1, Insert 4194305, Insert 2] = {2, 4194305}
   \<and> sparse_set_has entity_id_indexer \<lparr>dense = [2, 4194305], sparse = [0, 1, 0, 0]\<rparr> 4194305
   \<and> \<not> sparse_set_has entity_id_indexer \<lparr>dense = [2, 4194305], sparse = [0, 1, 0, 0]\<rparr> 1
   \<and> sparse_set_get_dense_index entity_id_indexer
        \<lparr>dense = [2, 4194305], sparse = [0, 1, 0, 0]\<rparr> 1 = Inl Logic_error"
proof -
  let ?ops = "[Insert 1, Insert 2, Unordered_erase 1, Insert 4194305, Insert 2]
      :: entity_id sparse_set_op list"
  let ?s = "\<lparr>dense = [2, 4194305 :: entity_id], sparse = [0, 1, 0, 0]\<rparr>"
  have n: "length ?ops \<le> length ?ops" by simp
  have tk: "take (length ?ops) ?ops = ?ops" by simp
  have h: "sparse_set_has entity_id_indexer ?s v \<longleftrightarrow> v \<in> {2, 4194305}"
    and g: "case sparse_set_get_dense_index entity_id_indexer ?s v of
            Inr i \<Rightarrow> v \<in> {2, 4194305} \<and> i < length (dense ?s) \<and> dense ?s ! i = v
          | Inl e \<Rightarrow> v \<notin> {2, 4194305} \<and> e = Logic_error" for v
  proof -
    from sparse_set_run_invariant [OF index_fits_example collision_free_example n, of v,
        unfolded tk sparse_set_run_example present_values_example]
    obtain s where s: "Inr ?s = (Inr s :: error + entity_id sparse_set)"
      and h: "sparse_set_has entity_id_indexer s v \<longleftrightarrow> v \<in> {2, 4194305}"
      and g: "case sparse_set_get_dense_index entity_id_indexer s v of
            Inr i \<Rightarrow> v \<in> {2, 4194305} \<and> i < length (dense s) \<and> dense s ! i = v
          | Inl e \<Rightarrow> v \<notin> {2, 4194305} \<and> e = Logic_error"
      by blast
    from s have eq: "s = ?s" by simp
    show "sparse_set_has entity_id_indexer ?s v \<longleftrightarrow> v \<in> {2, 4194305}"
      using h unfolding eq .
    show "case sparse_set_get_dense_index entity_id_indexer ?s v of
            Inr i \<Rightarrow> v \<in> {2, 4194305} \<and> i < length (dense ?s) \<and> dense ?s ! i = v
          | Inl e \<Rightarrow> v \<notin> {2, 4194305} \<and> e = Logic_error"
      using g unfolding eq .
  qed
  from h[of 4194305] have a: "sparse_set_has entity_id_indexer ?s 4194305" by simp
  from h[of 1] have b: "\<not> sparse_set_has entity_id_indexer ?s 1" by simp
  from g[of 1] have c: "sparse_set_get_dense_index entity_id_indexer ?s 1 = Inl Logic_error"
    by (cases "sparse_set_get_dense_index entity_id_indexer ?s 1") simp_all
  from a b c index_fits_example collision_free_example sparse_set_run_example
    present_values_example
  show ?thesis by simp
qed

text \<open>
  The claim as stated, for every sequence of operations, fails in two ways. With the
  registry's \<open>entity_id_indexer\<close>, which ignores the version: after inserting the ids
  \<open>1\<close> and \<open>1 + 2^22\<close> (index 1, versions 0 and 1) the id \<open>1\<close> is present and stands in
  \<open>dense\<close> while \<open>has\<close> denies it and \<open>get_dense_index\<close> throws. And with the default
  indexer on 64-bit values: inserting the value \<open>SIZE_MAX\<close> into the empty set writes past
  the end of \<open>sparse\<close>.
\<close>

theorem sparse_set_collision_or_wrap_counterexample:
  "sparse_set_run entity_id_indexer 1152921504606846975 [Insert 1, Insert 4194305]
     = Inr \<lparr>dense = [1, 4194305], sparse = [0, 1]\<rparr>
   \<and> 1 \<in> present_values entity_id_indexer 1152921504606846975 [Insert 1, Insert 4194305]
   \<and> 1 \<in> set (dense \<lparr>dense = [1, 4194305 :: entity_id], sparse = [0, 1]\<rparr>)
   \<and> \<not> sparse_set_has entity_id_indexer \<lparr>dense = [1, 4194305], sparse = [0, 1]\<rparr> 1
   \<and> sparse_set_get_dense_index entity_id_indexer \<lparr>dense = [1, 4194305], sparse = [0, 1]\<rparr> 1
       = Inl Logic_error
   \<and> sparse_set_run (sparse_indexer :: 64 word \<Rightarrow> nat) 1152921504606846975
        [Insert 18446744073709551615] = Inl Out_of_bounds"
proof -
  have "sparse_set_run (sparse_indexer :: 64 word \<Rightarrow> nat) 1152921504606846975
        [Insert 18446744073709551615] = Inl Out_of_bounds"
    by (simp add: sparse_set_run_def sparse_set_insert_size_max)
  moreover have "1 \<in> present_values entity_id_indexer 1152921504606846975 [Insert 1, Insert 4194305]"
    by (simp add: present_values_def entity_id_indexer_examples)
  ultimately show ?thesis
    by (simp add: sparse_set_run_collision sparse_set_get_dense_index_def
        sparse_set_find_dense_index_def sparse_set_has_def entity_id_indexer_examples)
qed

subsection \<open>Sparse map\<close>

lemma ss_wf_find_dense_index:
  assumes "ss_wf ix s"
  shows "sparse_set_find_dense_index ix s k = Some i \<longleftrightarrow> i < length (dense s) \<and> dense s ! i = k"
proof
  assume "sparse_set_find_dense_index ix s k = Some i"
  then show "i < length (dense s) \<and> dense s ! i = k"
    by (auto simp: sparse_set_find_dense_index_def sparse_set_has_def Let_def split: if_splits)
next
  assume a: "i < length (dense s) \<and> dense s ! i = k"
  then have "k \<in> set (dense s)" by auto
  then have "sparse_set_has ix s k" using assms by (simp add: ss_wf_has)
  moreover have "sparse s ! ix k = i" using assms a by (auto simp: ss_wf_def)
  ultimately show "sparse_set_find_dense_index ix s k = Some i"
    by (simp add: sparse_set_find_dense_index_def)
qed

lemma ss_wf_find_dense_index_None:
  assumes "ss_wf ix s"
  shows "sparse_set_find_dense_index ix s k = None \<longleftrightarrow> k \<notin> set (dense s)"
  using assms by (simp add: sparse_set_find_dense_index_def ss_wf_has)

lemma sm_wf_find_iff:
  assumes "sm_wf ix m"
  shows "sparse_map_find ix m k = Some v \<longleftrightarrow> (k, v) \<in> set (zip (dense (keys m)) (vals m))"
proof -
  from assms have wf: "ss_wf ix (keys m)" and len: "length (vals m) = length (dense (keys m))"
    by (simp_all add: sm_wf_def)
  show ?thesis
  proof
    assume "sparse_map_find ix m k = Some v"
    then obtain i where i: "sparse_set_find_dense_index ix (keys m) k = Some i" and v: "vals m ! i = v"
      by (auto simp: sparse_map_find_def split: option.splits)
    from i wf have "i < length (dense (keys m))" "dense (keys m) ! i = k"
      by (simp_all add: ss_wf_find_dense_index)
    with v len show "(k, v) \<in> set (zip (dense (keys m)) (vals m))"
      by (auto simp: in_set_zip)
  next
    assume "(k, v) \<in> set (zip (dense (keys m)) (vals m))"
    then obtain i where "i < length (dense (keys m))" "dense (keys m) ! i = k" "vals m ! i = v"
      by (auto simp: in_set_zip)
    then show "sparse_map_find ix m k = Some v"
      using wf by (simp add: sparse_map_find_def ss_wf_find_dense_index[THEN iffD2])
  qed
qed

lemma sm_wf_find_None:
  assumes "sm_wf ix m"
  shows "sparse_map_find ix m k = None \<longleftrightarrow> k \<notin> set (dense (keys m))"
proof -
  from assms have wf: "ss_wf ix (keys m)" by (simp add: sm_wf_def)
  have "sparse_map_find ix m k = None \<longleftrightarrow> sparse_set_find_dense_index ix (keys m) k = None"
    by (simp add: sparse_map_find_def split: option.splits)
  then show ?thesis using wf by (simp add: ss_wf_find_dense_index_None)
qed

lemma sm_wf_has: "sm_wf ix m \<Longrightarrow> sparse_map_has ix m k \<longleftrightarrow> k \<in> set (dense (keys m))"
  by (simp add: sparse_map_has_def sm_wf_def ss_wf_has)

lemma option_eqI: "(\<And>v. a = Some v \<longleftrightarrow> b = Some v) \<Longrightarrow> a = b"
  by (cases a; cases b) auto

lemma sm_wf_empty: "sm_wf ix sparse_map_empty"
  by (simp add: sm_wf_def sparse_map_empty_def ss_wf_empty) (simp add: sparse_set_empty_def)

lemma sm_wf_clear: "sm_wf ix (sparse_map_clear m)"
  by (simp add: sm_wf_def sparse_map_clear_def ss_wf_clear) (simp add: sparse_set_clear_def)

lemma sparse_map_insert_new:
  assumes wf: "sm_wf ix m" and fresh: "\<forall>u \<in> set (dense (keys m)). ix u \<noteq> ix k"
    and res: "sparse_map_insert ix mx m k v = Inr (b, m')"
  shows "b \<and> sm_wf ix m' \<and> dense (keys m') = dense (keys m) @ [k] \<and> vals m' = vals m @ [v]"
proof -
  from wf have swf: "ss_wf ix (keys m)" and len: "length (vals m) = length (dense (keys m))"
    by (simp_all add: sm_wf_def)
  from fresh have "k \<notin> set (dense (keys m))" by auto
  then have none: "sparse_set_find_dense_index ix (keys m) k = None"
    using swf by (simp add: ss_wf_find_dense_index_None)
  with res obtain b' ks where ins: "sparse_set_insert ix mx (keys m) k = Inr (b', ks)"
    and m': "m' = \<lparr>keys = ks, vals = vals m @ [v]\<rparr>" and b: "b"
    by (auto simp: sparse_map_insert_def split: sum.splits)
  from sparse_set_insert_new[OF swf fresh ins] len b show ?thesis
    by (simp add: m' sm_wf_def)
qed

lemma sparse_map_insert_ok:
  "ix k < mx \<Longrightarrow> ix k < size_max \<Longrightarrow> \<exists>b m'. sparse_map_insert ix mx m k v = Inr (b, m')"
  using sparse_set_insert_ok[of ix k mx "keys m"]
  by (auto simp: sparse_map_insert_def split: option.splits)

lemma sm_wf_update:
  assumes wf: "sm_wf ix m" and i: "sparse_set_find_dense_index ix (keys m) k = Some i"
  shows "sm_wf ix (m\<lparr>vals := (vals m)[i := v]\<rparr>)"
    and "sparse_map_find ix (m\<lparr>vals := (vals m)[i := v]\<rparr>) k' =
           (if k' = k then Some v else sparse_map_find ix m k')"
proof -
  from wf have swf: "ss_wf ix (keys m)" and len: "length (vals m) = length (dense (keys m))"
    by (simp_all add: sm_wf_def)
  from i swf have il: "i < length (dense (keys m))" and ik: "dense (keys m) ! i = k"
    by (simp_all add: ss_wf_find_dense_index)
  show "sm_wf ix (m\<lparr>vals := (vals m)[i := v]\<rparr>)" using wf by (simp add: sm_wf_def)
  show "sparse_map_find ix (m\<lparr>vals := (vals m)[i := v]\<rparr>) k' =
           (if k' = k then Some v else sparse_map_find ix m k')"
  proof (cases "k' = k")
    case True
    then show ?thesis using i il len by (simp add: sparse_map_find_def)
  next
    case False
    show ?thesis
    proof (cases "sparse_set_find_dense_index ix (keys m) k'")
      case None
      then show ?thesis using False by (simp add: sparse_map_find_def)
    next
      case (Some j)
      with swf have "j < length (dense (keys m))" "dense (keys m) ! j = k'"
        by (simp_all add: ss_wf_find_dense_index)
      with ik False have "j \<noteq> i" by auto
      then show ?thesis using Some False by (simp add: sparse_map_find_def)
    qed
  qed
qed

lemma butlast_zip: "length xs = length ys \<Longrightarrow> butlast (zip xs ys) = zip (butlast xs) (butlast ys)"
  by (simp add: butlast_conv_take take_zip)

lemma last_zip: "length xs = length ys \<Longrightarrow> xs \<noteq> [] \<Longrightarrow> last (zip xs ys) = (last xs, last ys)"
  by (cases xs rule: rev_cases; cases ys rule: rev_cases) auto

lemma set_butlast_update_last:
  assumes d: "distinct zs" and i: "i < length zs - 1"
  shows "set ((butlast zs)[i := last zs]) = set zs - {zs ! i}"
proof -
  from i have ne: "zs \<noteq> []" by auto
  have ib: "i < length (butlast zs)" using i by simp
  have "set ((butlast zs)[i := last zs]) = insert (last zs) (set (butlast zs) - {butlast zs ! i})"
    using set_update_distinct[OF distinct_butlast[OF d] ib] .
  moreover have "butlast zs ! i = zs ! i" using ib by (simp add: nth_butlast)
  moreover have "last zs \<noteq> zs ! i"
  proof
    assume "last zs = zs ! i"
    then have "zs ! (length zs - 1) = zs ! i" using ne by (simp add: last_conv_nth)
    then have "length zs - 1 = i" using d i ne by (simp add: nth_eq_iff_index_eq)
    with i show False by simp
  qed
  ultimately show ?thesis using butlast_last_set[OF ne d] by auto
qed

lemma set_butlast_last:
  assumes d: "distinct zs" and ne: "zs \<noteq> []"
  shows "set (butlast zs) = set zs - {zs ! (length zs - 1)}"
  using butlast_last_set[OF ne d] ne by (auto simp: last_conv_nth)

lemma sparse_map_erase_shape:
  assumes wf: "sm_wf ix m" and i: "sparse_set_find_dense_index ix (keys m) k = Some i"
    and res: "sparse_map_unordered_erase ix m k = (b, m')"
  shows "b \<and> ss_wf ix (keys m') \<and> length (vals m') = length (dense (keys m'))
     \<and> set (dense (keys m')) = set (dense (keys m)) - {k}
     \<and> set (zip (dense (keys m')) (vals m')) =
         set (zip (dense (keys m)) (vals m)) - {zip (dense (keys m)) (vals m) ! i}"
proof -
  let ?d = "dense (keys m)" and ?vs = "vals m" and ?n = "length (dense (keys m))"
  from wf have swf: "ss_wf ix (keys m)" and len: "length ?vs = ?n"
    by (simp_all add: sm_wf_def)
  from i have has: "sparse_set_has ix (keys m) k" and si: "sparse (keys m) ! ix k = i"
    by (auto simp: sparse_set_find_dense_index_def split: if_splits)
  from i swf have il: "i < ?n" and ik: "?d ! i = k" by (simp_all add: ss_wf_find_dense_index)
  then have ne: "?d \<noteq> []" by auto
  have dz: "distinct (zip ?d ?vs)" using ss_wf_distinct[OF swf] by (simp add: distinct_zipI1)
  have lz: "length (zip ?d ?vs) = ?n" using len by simp
  from res i have b: "b" and m': "m' = \<lparr>keys = snd (sparse_set_unordered_erase ix (keys m) k),
       vals = butlast (if i \<noteq> length ?vs - 1 then ?vs[i := ?vs ! (length ?vs - 1), length ?vs - 1 := ?vs ! i] else ?vs)\<rparr>"
    by (auto simp: sparse_map_unordered_erase_def Let_def)
  obtain b' ks where er: "sparse_set_unordered_erase ix (keys m) k = (b', ks)"
    by (cases "sparse_set_unordered_erase ix (keys m) k")
  from sparse_set_erase_wf[OF swf er] has swf
  have kwf: "ss_wf ix ks" and kset: "set (dense ks) = set ?d - {k}"
    and klen: "length (dense ks) = ?n - 1"
    by (simp_all add: ss_wf_has)
  show ?thesis
  proof (cases "i = ?n - 1")
    case True
    with has si er have ks: "ks = \<lparr>dense = butlast ?d, sparse = sparse (keys m)\<rparr>"
      by (simp add: sparse_set_erase_last)
    have v: "vals m' = butlast ?vs" using True len by (simp add: m')
    have "zip (dense ks) (butlast ?vs) = butlast (zip ?d ?vs)"
      using len by (simp add: ks butlast_zip)
    moreover have zne: "zip ?d ?vs \<noteq> []" using ne len by (cases ?d; cases ?vs) auto
    have "set (butlast (zip ?d ?vs)) = set (zip ?d ?vs) - {zip ?d ?vs ! i}"
      using set_butlast_last[OF dz zne] by (simp only: lz True)
    ultimately have "set (zip (dense ks) (butlast ?vs)) = set (zip ?d ?vs) - {zip ?d ?vs ! i}"
      by simp
    then show ?thesis using b kwf kset klen len v by (simp add: m' er)
  next
    case False
    with has si er have ks: "ks = \<lparr>dense = (butlast ?d)[i := last ?d],
            sparse = (sparse (keys m))[ix (last ?d) := i]\<rparr>"
      by (simp add: sparse_set_erase_inner)
    have vne: "?vs \<noteq> []" using ne len by auto
    have v: "vals m' = (butlast ?vs)[i := last ?vs]"
      using False len il vne by (simp add: m' butlast_list_update last_conv_nth)
    have "zip (dense ks) ((butlast ?vs)[i := last ?vs]) = (butlast (zip ?d ?vs))[i := last (zip ?d ?vs)]"
      using len ne by (simp add: ks butlast_zip last_zip zip_update)
    moreover have "i < length (zip ?d ?vs) - 1" using False il lz by simp
    ultimately have "set (zip (dense ks) ((butlast ?vs)[i := last ?vs])) = set (zip ?d ?vs) - {zip ?d ?vs ! i}"
      using set_butlast_update_last[OF dz] by simp
    then show ?thesis using b kwf kset klen len v by (simp add: m' er)
  qed
qed

lemma sparse_map_erase_absent:
  "sparse_set_find_dense_index ix (keys m) k = None \<Longrightarrow> sparse_map_unordered_erase ix m k = (False, m)"
  by (simp add: sparse_map_unordered_erase_def)

lemma sparse_map_erase_wf:
  assumes wf: "sm_wf ix m" and res: "sparse_map_unordered_erase ix m k = (b, m')"
  shows "sm_wf ix m'" and "set (dense (keys m')) = set (dense (keys m)) - {k}"
    and "sparse_map_find ix m' k' = (if k' = k then None else sparse_map_find ix m k')"
    and "b \<longleftrightarrow> k \<in> set (dense (keys m))"
proof -
  from wf have swf: "ss_wf ix (keys m)" and len: "length (vals m) = length (dense (keys m))"
    by (simp_all add: sm_wf_def)
  have "sm_wf ix m' \<and> set (dense (keys m')) = set (dense (keys m)) - {k}
    \<and> sparse_map_find ix m' k' = (if k' = k then None else sparse_map_find ix m k')
    \<and> (b \<longleftrightarrow> k \<in> set (dense (keys m)))"
  proof (cases "sparse_set_find_dense_index ix (keys m) k")
    case None
    then have "k \<notin> set (dense (keys m))" using swf by (simp add: ss_wf_find_dense_index_None)
    moreover from None res have "m' = m" "\<not> b" by (simp_all add: sparse_map_erase_absent)
    moreover have "sparse_map_find ix m k = None" using None by (simp add: sparse_map_find_def)
    ultimately show ?thesis using wf by auto
  next
    case (Some i)
    from Some swf have il: "i < length (dense (keys m))" and ik: "dense (keys m) ! i = k"
      by (simp_all add: ss_wf_find_dense_index)
    from sparse_map_erase_shape[OF wf Some res]
    have b: b and wf': "sm_wf ix m'" and ks: "set (dense (keys m')) = set (dense (keys m)) - {k}"
      and z: "set (zip (dense (keys m')) (vals m')) =
         set (zip (dense (keys m)) (vals m)) - {zip (dense (keys m)) (vals m) ! i}"
      by (simp_all add: sm_wf_def)
    have zi: "zip (dense (keys m)) (vals m) ! i = (k, vals m ! i)" using il ik len by simp
    have kin: "k \<in> set (dense (keys m))" using il ik by auto
    have "sparse_map_find ix m' k' = (if k' = k then None else sparse_map_find ix m k')"
    proof (cases "k' = k")
      case True
      then have "k' \<notin> set (dense (keys m'))" using ks by simp
      then show ?thesis using True wf' by (simp add: sm_wf_find_None)
    next
      case False
      have "\<And>v. sparse_map_find ix m' k' = Some v \<longleftrightarrow> sparse_map_find ix m k' = Some v"
        using False by (simp add: sm_wf_find_iff[OF wf'] sm_wf_find_iff[OF wf] z zi)
      then show ?thesis using False by (simp add: option_eqI)
    qed
    with b wf' ks kin show ?thesis by simp
  qed
  then show "sm_wf ix m'" and "set (dense (keys m')) = set (dense (keys m)) - {k}"
    and "sparse_map_find ix m' k' = (if k' = k then None else sparse_map_find ix m k')"
    and "b \<longleftrightarrow> k \<in> set (dense (keys m))" by simp_all
qed

lemma sparse_map_insert_find:
  assumes wf: "sm_wf ix m" and fresh: "\<forall>u \<in> set (dense (keys m)). ix u \<noteq> ix k"
    and res: "sparse_map_insert ix mx m k v = Inr (b, m')"
  shows "sparse_map_find ix m' k' = (if k' = k then Some v else sparse_map_find ix m k')"
proof -
  from sparse_map_insert_new[OF wf fresh res]
  have wf': "sm_wf ix m'" and d: "dense (keys m') = dense (keys m) @ [k]" and v: "vals m' = vals m @ [v]"
    by simp_all
  from wf have len: "length (vals m) = length (dense (keys m))" by (simp add: sm_wf_def)
  from fresh have kn: "k \<notin> set (dense (keys m))" by auto
  have z: "set (zip (dense (keys m')) (vals m')) = insert (k, v) (set (zip (dense (keys m)) (vals m)))"
    using len by (simp add: d v)
  have "\<And>w. sparse_map_find ix m' k' = Some w \<longleftrightarrow> (if k' = k then Some v else sparse_map_find ix m k') = Some w"
    using kn by (auto simp: sm_wf_find_iff[OF wf'] sm_wf_find_iff[OF wf] z dest: set_zip_leftD)
  then show ?thesis by (rule option_eqI)
qed

subsection \<open>Component storage\<close>

lemma entity_id_index_le_mask: "entity_id_index e \<le> entity_id_index_mask"
  by (simp add: entity_id_index_def word_and_le1)

lemma entity_id_indexer_bound: "entity_id_indexer e < 2 ^ 22"
proof -
  have "unat (entity_id_index e) \<le> unat entity_id_index_mask"
    using entity_id_index_le_mask by (simp add: word_le_nat_alt)
  then show ?thesis by (simp add: entity_id_indexer_def entity_id_masks_numeral)
qed

lemma entity_id_indexer_eq: "entity_id_indexer a = entity_id_indexer b \<longleftrightarrow> entity_id_index a = entity_id_index b"
  by (simp add: entity_id_indexer_def word_unat_eq_iff)

lemma sparse_indexer_bound: "sparse_indexer (f :: family_id) < 2 ^ 16"
  using unsigned_less[of f, where ?'a = nat] by (simp add: sparse_indexer_def)

lemma entity_id_indexer_fits: "entity_id_indexer e < size_max"
  using entity_id_indexer_bound[of e] by (simp add: size_max_numeral)

lemma sparse_indexer_fits: "sparse_indexer (f :: family_id) < size_max"
  using sparse_indexer_bound[of f] by (simp add: size_max_numeral)

lemma storage_assign_present:
  assumes wf: "sm_wf entity_id_indexer st" and e: "e \<in> set (dense (keys st))"
  shows "\<exists>st'. storage_assign p st e v = Inr st' \<and> sm_wf entity_id_indexer st'
      \<and> dense (keys st') = dense (keys st)
      \<and> (\<forall>e'. storage_find st' e' = (if e' = e then Some v else storage_find st e'))"
proof -
  from wf have swf: "ss_wf entity_id_indexer (keys st)" by (simp add: sm_wf_def)
  from e swf obtain i where i: "sparse_set_find_dense_index entity_id_indexer (keys st) e = Some i"
    by (cases "sparse_set_find_dense_index entity_id_indexer (keys st) e")
       (simp_all add: ss_wf_find_dense_index_None)
  then have "storage_assign p st e v = Inr (st\<lparr>vals := (vals st)[i := v]\<rparr>)"
    by (simp add: storage_assign_def)
  with sm_wf_update[OF wf i, of v] show ?thesis by (simp add: storage_find_def)
qed

lemma storage_assign_absent:
  assumes wf: "sm_wf entity_id_indexer st"
    and fresh: "\<forall>u \<in> set (dense (keys st)). entity_id_index u \<noteq> entity_id_index e"
    and mx: "2 ^ 22 \<le> sparse_max_size p"
  shows "\<exists>st'. storage_assign p st e v = Inr st' \<and> sm_wf entity_id_indexer st'
      \<and> dense (keys st') = dense (keys st) @ [e]
      \<and> (\<forall>e'. storage_find st' e' = (if e' = e then Some v else storage_find st e'))"
proof -
  from wf have swf: "ss_wf entity_id_indexer (keys st)" by (simp add: sm_wf_def)
  from fresh have fr: "\<forall>u \<in> set (dense (keys st)). entity_id_indexer u \<noteq> entity_id_indexer e"
    by (simp add: entity_id_indexer_eq)
  then have "e \<notin> set (dense (keys st))" by auto
  then have none: "sparse_set_find_dense_index entity_id_indexer (keys st) e = None"
    using swf by (simp add: ss_wf_find_dense_index_None)
  have "entity_id_indexer e < sparse_max_size p" using entity_id_indexer_bound[of e] mx by simp
  from sparse_map_insert_ok[of entity_id_indexer e "sparse_max_size p" st v, OF this entity_id_indexer_fits] obtain b st'
    where ins: "sparse_map_insert entity_id_indexer (sparse_max_size p) st e v = Inr (b, st')" by blast
  then have "storage_assign p st e v = Inr st'" using none by (simp add: storage_assign_def)
  with sparse_map_insert_new[OF wf fr ins] sparse_map_insert_find[OF wf fr ins]
  show ?thesis by (simp add: storage_find_def)
qed

lemma storage_ensure_present:
  assumes wf: "sm_wf entity_id_indexer st" and e: "e \<in> set (dense (keys st))"
  shows "storage_ensure p st e v = Inr st"
proof -
  from wf have swf: "ss_wf entity_id_indexer (keys st)" by (simp add: sm_wf_def)
  from e swf obtain i where i: "sparse_set_find_dense_index entity_id_indexer (keys st) e = Some i"
    by (cases "sparse_set_find_dense_index entity_id_indexer (keys st) e")
       (simp_all add: ss_wf_find_dense_index_None)
  then show ?thesis by (simp add: storage_ensure_def)
qed

lemma storage_ensure_absent:
  assumes wf: "sm_wf entity_id_indexer st" and e: "e \<notin> set (dense (keys st))"
  shows "storage_ensure p st e v = storage_assign p st e v"
proof -
  from wf have swf: "ss_wf entity_id_indexer (keys st)" by (simp add: sm_wf_def)
  from e have none: "sparse_set_find_dense_index entity_id_indexer (keys st) e = None"
    using swf by (simp add: ss_wf_find_dense_index_None)
  then show ?thesis by (simp add: storage_ensure_def storage_assign_def)
qed

lemma storage_find_None: "sm_wf entity_id_indexer st \<Longrightarrow> storage_find st e = None \<longleftrightarrow> e \<notin> set (dense (keys st))"
  by (simp add: storage_find_def sm_wf_find_None)

lemma storage_exists_iff: "sm_wf entity_id_indexer st \<Longrightarrow> storage_exists st e \<longleftrightarrow> e \<in> set (dense (keys st))"
  by (simp add: storage_exists_def sm_wf_has)

lemma storage_remove_wf:
  assumes wf: "sm_wf entity_id_indexer st" and res: "storage_remove st e = (b, st')"
  shows "sm_wf entity_id_indexer st'" and "set (dense (keys st')) = set (dense (keys st)) - {e}"
    and "storage_find st' e' = (if e' = e then None else storage_find st e')"
    and "b \<longleftrightarrow> e \<in> set (dense (keys st))"
  using sparse_map_erase_wf[OF wf res[unfolded storage_remove_def]]
  by (simp_all add: storage_find_def)

subsection \<open>The table of storages\<close>

lemma find_storage_Some:
  assumes "sm_wf sparse_indexer (storages r)"
  shows "find_storage r f = Some i \<longleftrightarrow> i < length (vals (storages r)) \<and> dense (keys (storages r)) ! i = f"
  using assms by (simp add: find_storage_def sm_wf_def ss_wf_find_dense_index)

lemma find_storage_None:
  assumes "sm_wf sparse_indexer (storages r)"
  shows "find_storage r f = None \<longleftrightarrow> f \<notin> set (dense (keys (storages r)))"
  using assms by (simp add: find_storage_def sm_wf_def ss_wf_find_dense_index_None)

lemma find_storage_set_storage_at [simp]: "find_storage (set_storage_at r i st) f = find_storage r f"
  by (simp add: find_storage_def set_storage_at_def)

lemma storage_at_set_storage_at:
  "i < length (vals (storages r)) \<Longrightarrow>
   storage_at (set_storage_at r i st) j = (if j = i then st else storage_at r j)"
  by (simp add: storage_at_def set_storage_at_def)

lemma set_storage_at_entities [simp]:
  "entity_ids (set_storage_at r i st) = entity_ids r"
  "free_entity_ids (set_storage_at r i st) = free_entity_ids r"
  "free_entity_ids_capacity (set_storage_at r i st) = free_entity_ids_capacity r"
  "last_entity_id (set_storage_at r i st) = last_entity_id r"
  by (simp_all add: set_storage_at_def)

lemma entities_inv_set_storage_at [simp]: "entities_inv (set_storage_at r i st) = entities_inv r"
  by (simp add: entities_inv_def)

lemma valid_entity_set_storage_at [simp]: "valid_entity (set_storage_at r i st) e = valid_entity r e"
  by (simp add: valid_entity_def)

lemma storages_inv_set_storage_at:
  assumes inv: "storages_inv r" and i: "i < length (vals (storages r))"
    and wf: "sm_wf entity_id_indexer st"
    and sub: "set (dense (keys st)) \<subseteq> set (dense (entity_ids r))"
  shows "storages_inv (set_storage_at r i st)"
proof -
  have "\<forall>st' \<in> set ((vals (storages r))[i := st]).
          sm_wf entity_id_indexer st' \<and> set (dense (keys st')) \<subseteq> set (dense (entity_ids r))"
    using inv wf sub i by (auto simp: storages_inv_def dest!: set_update_subset_insert[THEN subsetD])
  then show ?thesis using inv by (simp add: storages_inv_def set_storage_at_def sm_wf_def)
qed

lemma storages_inv_storage_at:
  assumes "storages_inv r" "i < length (vals (storages r))"
  shows "sm_wf entity_id_indexer (storage_at r i)"
    and "set (dense (keys (storage_at r i))) \<subseteq> set (dense (entity_ids r))"
  using assms by (auto simp: storages_inv_def storage_at_def)

lemma component_at_set_storage_at:
  assumes inv: "storages_inv r" and f: "find_storage r f = Some i"
  shows "component_at (set_storage_at r i st) f' e =
     (if f' = f then storage_find st e else component_at r f' e)"
proof -
  from inv have wf: "sm_wf sparse_indexer (storages r)" by (simp add: storages_inv_def)
  from f wf have il: "i < length (vals (storages r))" and fi: "dense (keys (storages r)) ! i = f"
    by (simp_all add: find_storage_Some)
  show ?thesis
  proof (cases "f' = f")
    case True
    then show ?thesis using f il by (simp add: component_at_def storage_at_set_storage_at)
  next
    case False
    show ?thesis
    proof (cases "find_storage r f'")
      case None
      then show ?thesis using False by (simp add: component_at_def)
    next
      case (Some j)
      with wf have "dense (keys (storages r)) ! j = f'" by (simp add: find_storage_Some)
      with fi False have "j \<noteq> i" by auto
      then show ?thesis using Some False il by (simp add: component_at_def storage_at_set_storage_at)
    qed
  qed
qed

lemma get_or_create_storage_present:
  "find_storage r f = Some i \<Longrightarrow> get_or_create_storage p r f = Inr (i, r)"
  by (simp add: get_or_create_storage_def)

lemma get_or_create_storage_absent:
  assumes inv: "storages_inv r" and none: "find_storage r f = None"
    and mx: "2 ^ 22 \<le> sparse_max_size p"
  shows "\<exists>m. get_or_create_storage p r f = Inr (length (vals (storages r)), r\<lparr>storages := m\<rparr>)
      \<and> sm_wf sparse_indexer m
      \<and> dense (keys m) = dense (keys (storages r)) @ [f]
      \<and> vals m = vals (storages r) @ [sparse_map_empty]"
proof -
  from inv have wf: "sm_wf sparse_indexer (storages r)" by (simp add: storages_inv_def)
  then have len: "length (vals (storages r)) = length (dense (keys (storages r)))"
    by (simp add: sm_wf_def)
  from none wf have fn: "f \<notin> set (dense (keys (storages r)))" by (simp add: find_storage_None)
  then have fresh: "\<forall>u \<in> set (dense (keys (storages r))). sparse_indexer u \<noteq> sparse_indexer f"
    by (auto simp: sparse_indexer_def dest: word_unat_eq_iff[THEN iffD2])
  have "sparse_indexer f < sparse_max_size p" using sparse_indexer_bound[of f] mx by simp
  from sparse_map_insert_ok[of sparse_indexer f "sparse_max_size p" "storages r" sparse_map_empty, OF this sparse_indexer_fits] obtain b m
    where ins: "sparse_map_insert sparse_indexer (sparse_max_size p) (storages r) f sparse_map_empty = Inr (b, m)"
    by blast
  from sparse_map_insert_new[OF wf fresh ins]
  have wf': "sm_wf sparse_indexer m" and d: "dense (keys m) = dense (keys (storages r)) @ [f]"
    and v: "vals m = vals (storages r) @ [sparse_map_empty]" by simp_all
  from wf' have swf: "ss_wf sparse_indexer (keys m)" by (simp add: sm_wf_def)
  have "sparse_set_find_dense_index sparse_indexer (keys m) f = Some (length (vals (storages r)))"
    using swf by (simp add: ss_wf_find_dense_index d len)
  then have "sparse_set_get_dense_index sparse_indexer (keys m) f = Inr (length (vals (storages r)))"
    by (simp add: sparse_set_get_dense_index_def)
  with ins none have "get_or_create_storage p r f = Inr (length (vals (storages r)), r\<lparr>storages := m\<rparr>)"
    by (simp add: get_or_create_storage_def)
  with wf' d v show ?thesis by blast
qed

subsection \<open>Component operations of the registry\<close>

lemma valid_entity_iff: "entities_inv r \<Longrightarrow> valid_entity r e \<longleftrightarrow> e \<in> set (dense (entity_ids r))"
  by (simp add: valid_entity_def entities_inv_def ss_wf_has)

lemma live_index_inj:
  assumes inv: "entities_inv r" and a: "a \<in> set (dense (entity_ids r))"
    and b: "b \<in> set (dense (entity_ids r))" and eq: "entity_id_index a = entity_id_index b"
  shows "a = b"
proof -
  from inv have "distinct (map entity_id_index (dense (entity_ids r)))"
    by (simp add: entities_inv_def)
  then have "inj_on entity_id_index (set (dense (entity_ids r)))" by (simp add: distinct_map)
  with a b eq show ?thesis by (auto dest: inj_onD)
qed

lemma storage_assign_live:
  assumes inv: "entities_inv r" and live: "e \<in> set (dense (entity_ids r))"
    and wf: "sm_wf entity_id_indexer st"
    and sub: "set (dense (keys st)) \<subseteq> set (dense (entity_ids r))"
    and mx: "2 ^ 22 \<le> sparse_max_size p"
  shows "\<exists>st'. storage_assign p st e v = Inr st' \<and> sm_wf entity_id_indexer st'
      \<and> set (dense (keys st')) \<subseteq> set (dense (entity_ids r))
      \<and> (\<forall>e'. storage_find st' e' = (if e' = e then Some v else storage_find st e'))"
proof (cases "e \<in> set (dense (keys st))")
  case True
  from storage_assign_present[OF wf True, of p v] sub show ?thesis by auto
next
  case False
  have "\<forall>u \<in> set (dense (keys st)). entity_id_index u \<noteq> entity_id_index e"
  proof
    fix u assume u: "u \<in> set (dense (keys st))"
    with sub have "u \<in> set (dense (entity_ids r))" by auto
    with live_index_inj[OF inv this live] u False
    show "entity_id_index u \<noteq> entity_id_index e" by auto
  qed
  from storage_assign_absent[OF wf this mx, of v] sub live show ?thesis by auto
qed

lemma storage_ensure_live:
  assumes inv: "entities_inv r" and live: "e \<in> set (dense (entity_ids r))"
    and wf: "sm_wf entity_id_indexer st"
    and sub: "set (dense (keys st)) \<subseteq> set (dense (entity_ids r))"
    and mx: "2 ^ 22 \<le> sparse_max_size p"
  shows "\<exists>st'. storage_ensure p st e v = Inr st' \<and> sm_wf entity_id_indexer st'
      \<and> set (dense (keys st')) \<subseteq> set (dense (entity_ids r))
      \<and> (\<forall>e'. storage_find st' e' =
            (if e' = e \<and> storage_find st e = None then Some v else storage_find st e'))"
proof (cases "e \<in> set (dense (keys st))")
  case True
  then have "storage_find st e \<noteq> None" using wf by (simp add: storage_find_None)
  with storage_ensure_present[OF wf True, of p v] wf sub show ?thesis by auto
next
  case False
  then have "storage_find st e = None" using wf by (simp add: storage_find_None)
  with storage_assign_live[OF inv live wf sub mx, of v] storage_ensure_absent[OF wf False, of p v]
  show ?thesis by auto
qed

lemma storages_field_update:
  "find_storage (r\<lparr>storages := m\<rparr>) f = sparse_set_find_dense_index sparse_indexer (keys m) f"
  "storage_at (r\<lparr>storages := m\<rparr>) i = vals m ! i"
  by (simp_all add: find_storage_def storage_at_def)

lemma entities_inv_storages_update [simp]: "entities_inv (r\<lparr>storages := m\<rparr>) = entities_inv r"
  by (simp add: entities_inv_def)

lemma valid_entity_storages_update [simp]: "valid_entity (r\<lparr>storages := m\<rparr>) e = valid_entity r e"
  by (simp add: valid_entity_def)

lemma set_storage_at_as_update:
  "set_storage_at r i st = r\<lparr>storages := (storages r)\<lparr>vals := (vals (storages r))[i := st]\<rparr>\<rparr>"
  by (simp add: set_storage_at_def)

lemma get_or_create_storage_inv:
  assumes inv: "storages_inv r" and mx: "2 ^ 22 \<le> sparse_max_size p"
  shows "\<exists>i m. get_or_create_storage p r f = Inr (i, r\<lparr>storages := m\<rparr>)
      \<and> find_storage (r\<lparr>storages := m\<rparr>) f = Some i
      \<and> storages_inv (r\<lparr>storages := m\<rparr>)
      \<and> (\<forall>f' e'. component_at (r\<lparr>storages := m\<rparr>) f' e' = component_at r f' e')"
proof (cases "find_storage r f")
  case (Some i)
  then have "get_or_create_storage p r f = Inr (i, r\<lparr>storages := storages r\<rparr>)"
    by (simp add: get_or_create_storage_present)
  moreover have "r\<lparr>storages := storages r\<rparr> = r" by simp
  ultimately show ?thesis using Some inv by metis
next
  case None
  from inv have wf: "sm_wf sparse_indexer (storages r)" by (simp add: storages_inv_def)
  then have len: "length (vals (storages r)) = length (dense (keys (storages r)))"
    by (simp add: sm_wf_def)
  from get_or_create_storage_absent[OF inv None mx] obtain m where
    g: "get_or_create_storage p r f = Inr (length (vals (storages r)), r\<lparr>storages := m\<rparr>)"
    and wf': "sm_wf sparse_indexer m"
    and d: "dense (keys m) = dense (keys (storages r)) @ [f]"
    and v: "vals m = vals (storages r) @ [sparse_map_empty]" by blast
  from wf' have swf: "ss_wf sparse_indexer (keys m)" by (simp add: sm_wf_def)
  let ?r = "r\<lparr>storages := m\<rparr>"
  have fs: "find_storage ?r f = Some (length (vals (storages r)))"
    using swf by (simp add: storages_field_update ss_wf_find_dense_index d len)
  have si: "storages_inv ?r"
    using inv wf' by (auto simp: storages_inv_def v sm_wf_empty) (simp add: sparse_map_empty_def sparse_set_empty_def)
  have ca: "component_at ?r f' e' = component_at r f' e'" for f' e'
  proof (cases "f' = f")
    case True
    then show ?thesis using None fs
      by (simp add: component_at_def storages_field_update v storage_find_def sparse_map_find_def
          sparse_map_empty_def sparse_set_empty_def sparse_set_find_dense_index_def sparse_set_has_def)
  next
    case False
    show ?thesis
    proof (cases "find_storage r f'")
      case n: None
      with wf have "f' \<notin> set (dense (keys (storages r)))" by (simp add: find_storage_None)
      with False have "f' \<notin> set (dense (keys m))" by (simp add: d)
      then have "sparse_set_find_dense_index sparse_indexer (keys m) f' = None"
        using swf by (simp add: ss_wf_find_dense_index_None)
      with n show ?thesis by (simp add: component_at_def storages_field_update)
    next
      case (Some j)
      with wf have j: "j < length (vals (storages r))" "dense (keys (storages r)) ! j = f'"
        by (simp_all add: find_storage_Some)
      then have "sparse_set_find_dense_index sparse_indexer (keys m) f' = Some j"
        using swf len by (simp add: ss_wf_find_dense_index d nth_append)
      with Some j show ?thesis
        by (simp add: component_at_def storages_field_update v nth_append storage_at_def)
    qed
  qed
  from g fs si ca show ?thesis by blast
qed

lemma storages_update_twice [simp]: "r\<lparr>storages := m\<rparr>\<lparr>storages := m'\<rparr> = r\<lparr>storages := m'\<rparr>"
  by simp

lemma assign_component_inv:
  assumes inv: "registry_inv r" and valid: "valid_entity r e" and ok: "platform_ok p"
  shows "\<exists>m. assign_component p r f e v = Inr (r\<lparr>storages := m\<rparr>)
      \<and> storages_inv (r\<lparr>storages := m\<rparr>)
      \<and> (\<forall>f' e'. component_at (r\<lparr>storages := m\<rparr>) f' e' =
            (if f' = f \<and> e' = e then Some v else component_at r f' e'))"
proof -
  from inv have ei: "entities_inv r" and si: "storages_inv r" by (simp_all add: registry_inv_def)
  from ok have mx: "2 ^ 22 \<le> sparse_max_size p" by (simp add: platform_ok_def)
  from valid ei have live: "e \<in> set (dense (entity_ids r))" by (simp add: valid_entity_iff)
  from get_or_create_storage_inv[OF si mx, of f] obtain i m where
    g: "get_or_create_storage p r f = Inr (i, r\<lparr>storages := m\<rparr>)"
    and fs: "find_storage (r\<lparr>storages := m\<rparr>) f = Some i"
    and si1: "storages_inv (r\<lparr>storages := m\<rparr>)"
    and ca1: "\<forall>f' e'. component_at (r\<lparr>storages := m\<rparr>) f' e' = component_at r f' e'" by blast
  let ?r1 = "r\<lparr>storages := m\<rparr>"
  from si1 have wf1: "sm_wf sparse_indexer (storages ?r1)" by (simp add: storages_inv_def)
  from fs wf1 have il: "i < length (vals (storages ?r1))" by (simp add: find_storage_Some)
  have ei1: "entities_inv ?r1" using ei by simp
  from storages_inv_storage_at[OF si1 il]
  have swf: "sm_wf entity_id_indexer (storage_at ?r1 i)"
    and sub: "set (dense (keys (storage_at ?r1 i))) \<subseteq> set (dense (entity_ids ?r1))" by simp_all
  have live1: "e \<in> set (dense (entity_ids ?r1))" using live by simp
  from storage_assign_live[OF ei1 live1 swf sub mx, of v] obtain st' where
    sa: "storage_assign p (storage_at ?r1 i) e v = Inr st'"
    and wf': "sm_wf entity_id_indexer st'"
    and sub': "set (dense (keys st')) \<subseteq> set (dense (entity_ids ?r1))"
    and fnd: "\<forall>e'. storage_find st' e' = (if e' = e then Some v else storage_find (storage_at ?r1 i) e')"
    by blast
  have res: "assign_component p r f e v = Inr (set_storage_at ?r1 i st')"
    using valid g sa by (simp add: assign_component_def)
  have eq: "set_storage_at ?r1 i st' = r\<lparr>storages := m\<lparr>vals := (vals m)[i := st']\<rparr>\<rparr>"
    by (simp add: set_storage_at_def)
  have si2: "storages_inv (set_storage_at ?r1 i st')"
    by (rule storages_inv_set_storage_at[OF si1 il wf' sub'])
  have ca2: "component_at (set_storage_at ?r1 i st') f' e' =
            (if f' = f \<and> e' = e then Some v else component_at r f' e')" for f' e'
  proof -
    have c1: "component_at ?r1 f e' = storage_find (storage_at ?r1 i) e'"
      using fs by (simp add: component_at_def)
    show ?thesis
      using component_at_set_storage_at[OF si1 fs, of st' f' e'] fnd ca1 c1 by auto
  qed
  from res si2 ca2 show ?thesis unfolding eq by blast
qed

lemma ensure_component_inv:
  assumes inv: "registry_inv r" and valid: "valid_entity r e" and ok: "platform_ok p"
  shows "\<exists>m. ensure_component p r f e v = Inr (r\<lparr>storages := m\<rparr>)
      \<and> storages_inv (r\<lparr>storages := m\<rparr>)
      \<and> (\<forall>f' e'. component_at (r\<lparr>storages := m\<rparr>) f' e' =
            (if f' = f \<and> e' = e \<and> component_at r f e = None then Some v
             else component_at r f' e'))"
proof -
  from inv have ei: "entities_inv r" and si: "storages_inv r" by (simp_all add: registry_inv_def)
  from ok have mx: "2 ^ 22 \<le> sparse_max_size p" by (simp add: platform_ok_def)
  from valid ei have live: "e \<in> set (dense (entity_ids r))" by (simp add: valid_entity_iff)
  from get_or_create_storage_inv[OF si mx, of f] obtain i m where
    g: "get_or_create_storage p r f = Inr (i, r\<lparr>storages := m\<rparr>)"
    and fs: "find_storage (r\<lparr>storages := m\<rparr>) f = Some i"
    and si1: "storages_inv (r\<lparr>storages := m\<rparr>)"
    and ca1: "\<forall>f' e'. component_at (r\<lparr>storages := m\<rparr>) f' e' = component_at r f' e'" by blast
  let ?r1 = "r\<lparr>storages := m\<rparr>"
  from si1 have wf1: "sm_wf sparse_indexer (storages ?r1)" by (simp add: storages_inv_def)
  from fs wf1 have il: "i < length (vals (storages ?r1))" by (simp add: find_storage_Some)
  have ei1: "entities_inv ?r1" using ei by simp
  from storages_inv_storage_at[OF si1 il]
  have swf: "sm_wf entity_id_indexer (storage_at ?r1 i)"
    and sub: "set (dense (keys (storage_at ?r1 i))) \<subseteq> set (dense (entity_ids ?r1))" by simp_all
  have live1: "e \<in> set (dense (entity_ids ?r1))" using live by simp
  from storage_ensure_live[OF ei1 live1 swf sub mx, of v] obtain st' where
    sa: "storage_ensure p (storage_at ?r1 i) e v = Inr st'"
    and wf': "sm_wf entity_id_indexer st'"
    and sub': "set (dense (keys st')) \<subseteq> set (dense (entity_ids ?r1))"
    and fnd: "\<forall>e'. storage_find st' e' =
         (if e' = e \<and> storage_find (storage_at ?r1 i) e = None then Some v
          else storage_find (storage_at ?r1 i) e')"
    by blast
  have res: "ensure_component p r f e v = Inr (set_storage_at ?r1 i st')"
    using valid g sa by (simp add: ensure_component_def)
  have eq: "set_storage_at ?r1 i st' = r\<lparr>storages := m\<lparr>vals := (vals m)[i := st']\<rparr>\<rparr>"
    by (simp add: set_storage_at_def)
  have si2: "storages_inv (set_storage_at ?r1 i st')"
    by (rule storages_inv_set_storage_at[OF si1 il wf' sub'])
  have c1: "component_at ?r1 f e' = storage_find (storage_at ?r1 i) e'" for e'
    using fs by (simp add: component_at_def)
  have ca2: "component_at (set_storage_at ?r1 i st') f' e' =
            (if f' = f \<and> e' = e \<and> component_at r f e = None then Some v
             else component_at r f' e')" for f' e'
    using component_at_set_storage_at[OF si1 fs, of st' f' e'] fnd ca1 c1[of e'] c1[of e] by auto
  from res si2 ca2 show ?thesis unfolding eq by blast
qed

lemma remove_component_inv:
  assumes inv: "registry_inv r" and valid: "valid_entity r e"
  shows "\<exists>b m. remove_component p r f e = Inr (b, r\<lparr>storages := m\<rparr>)
      \<and> storages_inv (r\<lparr>storages := m\<rparr>)
      \<and> (\<forall>f' e'. component_at (r\<lparr>storages := m\<rparr>) f' e' =
            (if f' = f \<and> e' = e then None else component_at r f' e'))"
proof (cases "find_storage r f")
  case None
  then have "remove_component p r f e = Inr (False, r\<lparr>storages := storages r\<rparr>)"
    using valid by (simp add: remove_component_def)
  moreover have "component_at r f e' = None" for e' using None by (simp add: component_at_def)
  ultimately show ?thesis using inv
    by (intro exI[of _ False] exI[of _ "storages r"]) (simp add: registry_inv_def)
next
  case (Some i)
  from inv have si: "storages_inv r" by (simp add: registry_inv_def)
  then have wf: "sm_wf sparse_indexer (storages r)" by (simp add: storages_inv_def)
  from Some wf have il: "i < length (vals (storages r))" by (simp add: find_storage_Some)
  obtain b st' where rm: "storage_remove (storage_at r i) e = (b, st')"
    by (cases "storage_remove (storage_at r i) e")
  note sa = storages_inv_storage_at[OF si il]
  note rw = storage_remove_wf[OF sa(1) rm]
  have res: "remove_component p r f e = Inr (b, set_storage_at r i st')"
    using valid Some rm by (simp add: remove_component_def)
  have sub: "set (dense (keys st')) \<subseteq> set (dense (entity_ids r))" using rw(2) sa(2) by auto
  have si2: "storages_inv (set_storage_at r i st')"
    by (rule storages_inv_set_storage_at[OF si il rw(1) sub])
  have c1: "component_at r f e' = storage_find (storage_at r i) e'" for e'
    using Some by (simp add: component_at_def)
  have ca2: "component_at (set_storage_at r i st') f' e' =
            (if f' = f \<and> e' = e then None else component_at r f' e')" for f' e'
    using component_at_set_storage_at[OF si Some, of st' f' e'] rw(3)[of e'] c1[of e'] by auto
  from res si2 ca2 show ?thesis unfolding set_storage_at_as_update by blast
qed

lemma remove_all_components_of_inv:
  assumes inv: "registry_inv r"
  shows "\<exists>n m. remove_all_components_of r f = (n, r\<lparr>storages := m\<rparr>)
      \<and> storages_inv (r\<lparr>storages := m\<rparr>)
      \<and> (\<forall>f' e'. component_at (r\<lparr>storages := m\<rparr>) f' e' =
            (if f' = f then None else component_at r f' e'))"
proof (cases "find_storage r f")
  case None
  then have "remove_all_components_of r f = (0, r\<lparr>storages := storages r\<rparr>)"
    by (simp add: remove_all_components_of_def)
  moreover have "component_at r f e' = None" for e' using None by (simp add: component_at_def)
  ultimately show ?thesis using inv
    by (intro exI[of _ 0] exI[of _ "storages r"]) (simp add: registry_inv_def)
next
  case (Some i)
  from inv have si: "storages_inv r" by (simp add: registry_inv_def)
  then have wf: "sm_wf sparse_indexer (storages r)" by (simp add: storages_inv_def)
  from Some wf have il: "i < length (vals (storages r))" by (simp add: find_storage_Some)
  let ?st = "sparse_map_clear (storage_at r i)"
  have res: "remove_all_components_of r f =
      (sparse_map_size (storage_at r i), set_storage_at r i ?st)"
    using Some by (simp add: remove_all_components_of_def storage_remove_all_def)
  have d: "dense (keys ?st) = []" by (simp add: sparse_map_clear_def sparse_set_clear_def)
  have si2: "storages_inv (set_storage_at r i ?st)"
    by (rule storages_inv_set_storage_at[OF si il sm_wf_clear]) (simp add: d)
  have fn: "storage_find ?st e' = None" for e'
    by (simp add: storage_find_None[OF sm_wf_clear] d)
  have ca2: "component_at (set_storage_at r i ?st) f' e' =
            (if f' = f then None else component_at r f' e')" for f' e'
    using component_at_set_storage_at[OF si Some, of ?st f' e'] fn by auto
  from res si2 ca2 show ?thesis unfolding set_storage_at_as_update by blast
qed

lemma remove_all_components_loop_inv:
  assumes "sm_wf sparse_indexer m" "distinct fs" "set fs \<subseteq> set (dense (keys m))"
  shows "\<exists>c' m'. remove_all_components_loop m e fs c = Inr (c', m')
      \<and> keys m' = keys m \<and> length (vals m') = length (vals m)
      \<and> (\<forall>j < length (vals m). vals m' ! j =
            (if dense (keys m) ! j \<in> set fs then snd (storage_remove (vals m ! j) e)
             else vals m ! j))"
  using assms
proof (induction fs arbitrary: m c)
  case Nil
  then show ?case by simp
next
  case (Cons f fs)
  from Cons.prems have swf: "ss_wf sparse_indexer (keys m)"
    and len: "length (vals m) = length (dense (keys m))" by (simp_all add: sm_wf_def)
  from Cons.prems have fin: "f \<in> set (dense (keys m))" by simp
  let ?i = "sparse (keys m) ! sparse_indexer f"
  from ss_wf_get_dense_index[OF swf, of f] fin
  have gi: "sparse_set_get_dense_index sparse_indexer (keys m) f = Inr ?i"
    and il: "?i < length (dense (keys m))" and fi: "dense (keys m) ! ?i = f" by simp_all
  obtain b st where rm: "storage_remove (vals m ! ?i) e = (b, st)"
    by (cases "storage_remove (vals m ! ?i) e")
  let ?m1 = "m\<lparr>vals := (vals m)[?i := st]\<rparr>"
  have wf1: "sm_wf sparse_indexer ?m1" using Cons.prems(1) by (simp add: sm_wf_def)
  have d1: "distinct fs" and s1: "set fs \<subseteq> set (dense (keys ?m1))" and fn: "f \<notin> set fs"
    using Cons.prems by simp_all
  from Cons.IH[OF wf1 d1 s1, of "if b then c + 1 else c"] obtain c' m' where
    l: "remove_all_components_loop ?m1 e fs (if b then c + 1 else c) = Inr (c', m')"
    and k: "keys m' = keys m" and ln: "length (vals m') = length (vals m)"
    and v: "\<forall>j < length (vals m). vals m' ! j =
            (if dense (keys m) ! j \<in> set fs then snd (storage_remove (vals ?m1 ! j) e)
             else vals ?m1 ! j)" by auto
  have res: "remove_all_components_loop m e (f # fs) c = Inr (c', m')"
    using gi rm l by simp
  have "vals m' ! j =
            (if dense (keys m) ! j \<in> set (f # fs) then snd (storage_remove (vals m ! j) e)
             else vals m ! j)" if j: "j < length (vals m)" for j
  proof (cases "j = ?i")
    case True
    then show ?thesis using v j fi fn rm by simp
  next
    case False
    have "dense (keys m) ! j \<noteq> f"
      using ss_wf_distinct[OF swf] j il len fi False by (auto simp: nth_eq_iff_index_eq)
    then show ?thesis using v j False by simp
  qed
  with res k ln show ?case by blast
qed

lemma remove_all_components_inv:
  assumes inv: "registry_inv r" and valid: "valid_entity r e"
  shows "\<exists>n m. remove_all_components p r e = Inr (n, r\<lparr>storages := m\<rparr>)
      \<and> storages_inv (r\<lparr>storages := m\<rparr>)
      \<and> (\<forall>st \<in> set (vals m). e \<notin> set (dense (keys st)))
      \<and> (\<forall>f' e'. component_at (r\<lparr>storages := m\<rparr>) f' e' =
            (if e' = e then None else component_at r f' e'))"
proof -
  from inv have si: "storages_inv r" by (simp add: registry_inv_def)
  then have wf: "sm_wf sparse_indexer (storages r)" by (simp add: storages_inv_def)
  then have swf: "ss_wf sparse_indexer (keys (storages r))"
    and len: "length (vals (storages r)) = length (dense (keys (storages r)))"
    by (simp_all add: sm_wf_def)
  from remove_all_components_loop_inv[OF wf ss_wf_distinct[OF swf] subset_refl, of e 0]
  obtain n m where l: "remove_all_components_loop (storages r) e (dense (keys (storages r))) 0 = Inr (n, m)"
    and k: "keys m = keys (storages r)" and ln: "length (vals m) = length (vals (storages r))"
    and v: "\<forall>j < length (vals (storages r)). vals m ! j = snd (storage_remove (vals (storages r) ! j) e)"
    using len by auto
  have res: "remove_all_components p r e = Inr (n, r\<lparr>storages := m\<rparr>)"
    using valid l by (simp add: remove_all_components_def)
  have each: "sm_wf entity_id_indexer (vals m ! j)
      \<and> set (dense (keys (vals m ! j))) = set (dense (keys (vals (storages r) ! j))) - {e}
      \<and> (\<forall>e'. storage_find (vals m ! j) e' =
            (if e' = e then None else storage_find (vals (storages r) ! j) e'))"
    if j: "j < length (vals (storages r))" for j
  proof -
    obtain b st where rm: "storage_remove (vals (storages r) ! j) e = (b, st)"
      by (cases "storage_remove (vals (storages r) ! j) e")
    from storages_inv_storage_at[OF si j] have w: "sm_wf entity_id_indexer (vals (storages r) ! j)"
      by (simp add: storage_at_def)
    from storage_remove_wf[OF w rm] v j rm show ?thesis by simp
  qed
  have si': "storages_inv (r\<lparr>storages := m\<rparr>)"
    unfolding storages_inv_def
  proof (intro conjI ballI)
    show "sm_wf sparse_indexer (storages (r\<lparr>storages := m\<rparr>))"
      using wf k ln by (simp add: sm_wf_def)
  next
    fix st assume "st \<in> set (vals (storages (r\<lparr>storages := m\<rparr>)))"
    then obtain j where j: "j < length (vals (storages r))" and st: "st = vals m ! j"
      using ln by (auto simp: in_set_conv_nth)
    from storages_inv_storage_at(2)[OF si j] each[OF j]
    show "sm_wf entity_id_indexer st" "set (dense (keys st)) \<subseteq> set (dense (entity_ids (r\<lparr>storages := m\<rparr>)))"
      by (auto simp: st storage_at_def)
  qed
  have gone: "\<forall>st \<in> set (vals m). e \<notin> set (dense (keys st))"
  proof
    fix st assume "st \<in> set (vals m)"
    then obtain j where j: "j < length (vals (storages r))" and st: "st = vals m ! j"
      using ln by (auto simp: in_set_conv_nth)
    from each[OF j] show "e \<notin> set (dense (keys st))" by (simp add: st)
  qed
  have ca: "component_at (r\<lparr>storages := m\<rparr>) f' e' = (if e' = e then None else component_at r f' e')"
    for f' e'
  proof (cases "find_storage r f'")
    case None
    then show ?thesis by (simp add: component_at_def storages_field_update k find_storage_def)
  next
    case (Some j)
    with wf have j: "j < length (vals (storages r))" by (simp add: find_storage_Some)
    from each[OF j] Some show ?thesis
      by (simp add: component_at_def storages_field_update k find_storage_def storage_at_def)
  qed
  from res si' gone ca show ?thesis by blast
qed

subsection \<open>Creating and destroying entities\<close>

lemma index_bounded_length:
  assumes d: "distinct (map entity_id_index xs)"
    and b: "\<forall>e \<in> set xs. 0 < entity_id_index e \<and> entity_id_index e \<le> l"
  shows "length xs \<le> unat l"
proof -
  let ?ys = "map unat (map entity_id_index xs)"
  have iu: "inj_on (unat :: 32 word \<Rightarrow> nat) A" for A
    by (rule inj_onI) (simp add: word_unat_eq_iff)
  have dy: "distinct ?ys"
    unfolding distinct_map[of unat] using d iu by blast
  have "set ?ys \<subseteq> {1..unat l}"
  proof
    fix n assume "n \<in> set ?ys"
    then obtain e where e: "e \<in> set xs" and n: "n = unat (entity_id_index e)" by auto
    from e b have "0 < entity_id_index e" "entity_id_index e \<le> l" by blast+
    then have "0 < unat (entity_id_index e)" "unat (entity_id_index e) \<le> unat l"
      by (simp_all add: word_le_nat_alt word_less_nat_alt)
    then show "n \<in> {1..unat l}" using n by simp
  qed
  then have "card (set ?ys) \<le> card {1..unat l}"
    by (rule card_mono[rotated]) simp
  moreover have "card (set ?ys) = length ?ys" using dy by (rule distinct_card)
  ultimately show ?thesis by simp
qed

lemma fresh_id_facts:
  assumes "l < entity_id_index_mask"
  shows "entity_id_index (l + 1) = l + 1" and "l < l + 1" and "l + 1 \<le> entity_id_index_mask"
    and "0 < l + 1"
proof -
  from assms have u: "unat l < 4194303" by (simp add: entity_id_masks_numeral word_less_nat_alt)
  then have u1: "unat (l + 1) = unat l + 1" by (simp add: unat_word_ariths)
  show "l < l + 1" using u1 by (simp add: word_less_nat_alt)
  show le: "l + 1 \<le> entity_id_index_mask"
    using u u1 by (simp add: entity_id_masks_numeral word_le_nat_alt)
  show "0 < l + 1" using u1 by (simp add: word_less_nat_alt)
  have "l + 1 < 2 ^ 22" using u u1 by (simp add: word_less_nat_alt)
  then show "entity_id_index (l + 1) = l + 1" by (rule entity_id_index_small)
qed

lemma create_entity_fresh:
  assumes inv: "entities_inv r" and free: "free_entity_ids r = []"
    and l: "last_entity_id r < entity_id_index_mask" and ok: "platform_ok p"
  shows "\<exists>c ids. create_entity p r =
        (Inr (last_entity_id r + 1),
         r\<lparr>free_entity_ids_capacity := c, entity_ids := ids,
           last_entity_id := last_entity_id r + 1\<rparr>)
      \<and> dense ids = dense (entity_ids r) @ [last_entity_id r + 1]
      \<and> entities_inv (r\<lparr>free_entity_ids_capacity := c, entity_ids := ids,
           last_entity_id := last_entity_id r + 1\<rparr>)"
proof -
  let ?new = "last_entity_id r + 1" and ?d = "dense (entity_ids r)"
  note ff = fresh_id_facts[OF l]
  from inv free have wf: "ss_wf entity_id_indexer (entity_ids r)"
    and dist: "distinct (map entity_id_index ?d)"
    and bnd: "\<forall>e \<in> set ?d. 0 < entity_id_index e \<and> entity_id_index e \<le> last_entity_id r"
    and cap: "length ?d \<le> free_entity_ids_capacity r"
    by (simp_all add: entities_inv_def)
  from ok have mx: "2 ^ 22 \<le> sparse_max_size p" and imx: "2 ^ 22 \<le> ids_max_size p"
    by (simp_all add: platform_ok_def)
  have "length ?d \<le> unat (last_entity_id r)" by (rule index_bounded_length[OF dist bnd])
  moreover have "unat (last_entity_id r) < 4194303"
    using l by (simp add: entity_id_masks_numeral word_less_nat_alt)
  ultimately have sz: "length ?d + 1 \<le> ids_max_size p" using imx by simp
  obtain c where c: "(if free_entity_ids_capacity r \<le> sparse_set_size (entity_ids r)
               then (case next_capacity_size (free_entity_ids_capacity r)
                            (sparse_set_size (entity_ids r) + 1) (ids_max_size p) of
                       Inl e \<Rightarrow> Inl e
                     | Inr n \<Rightarrow> Inr (vector_reserve (free_entity_ids_capacity r) n))
               else Inr (free_entity_ids_capacity r)) = Inr c" and cge: "length ?d + 1 \<le> c"
  proof (cases "free_entity_ids_capacity r \<le> sparse_set_size (entity_ids r)")
    case True
    from next_capacity_size_ok[OF sz, of "free_entity_ids_capacity r"] obtain n where
      n: "next_capacity_size (free_entity_ids_capacity r) (length ?d + 1) (ids_max_size p) = Inr n"
      by blast
    from next_capacity_size_ge[OF n] have "length ?d + 1 \<le> vector_reserve (free_entity_ids_capacity r) n"
      by (simp add: vector_reserve_def)
    with that[of "vector_reserve (free_entity_ids_capacity r) n"] True n show ?thesis
      by (simp add: sparse_set_size_def)
  next
    case False
    with that[of "free_entity_ids_capacity r"] show ?thesis by (simp add: sparse_set_size_def)
  qed
  have fresh: "\<forall>u \<in> set ?d. entity_id_indexer u \<noteq> entity_id_indexer ?new"
  proof
    fix u assume "u \<in> set ?d"
    with bnd have "entity_id_index u \<le> last_entity_id r" by blast
    with ff(1,2) have "entity_id_index u \<noteq> entity_id_index ?new" by auto
    then show "entity_id_indexer u \<noteq> entity_id_indexer ?new" by (simp add: entity_id_indexer_eq)
  qed
  have "entity_id_indexer ?new < sparse_max_size p" using entity_id_indexer_bound[of ?new] mx by simp
  from sparse_set_insert_ok[of entity_id_indexer ?new "sparse_max_size p" "entity_ids r", OF this entity_id_indexer_fits]
  obtain b ids where ins: "sparse_set_insert entity_id_indexer (sparse_max_size p) (entity_ids r) ?new = Inr (b, ids)"
    by blast
  from sparse_set_insert_new[OF wf fresh ins]
  have d': "dense ids = ?d @ [?new]" and wf': "ss_wf entity_id_indexer ids" by simp_all
  let ?r' = "r\<lparr>free_entity_ids_capacity := c, entity_ids := ids, last_entity_id := ?new\<rparr>"
  have res: "create_entity p r = (Inr ?new, ?r')"
    using free l c ins by (simp add: create_entity_def Let_def)
  have nin: "entity_id_index ?new \<notin> entity_id_index ` set ?d"
  proof
    assume "entity_id_index ?new \<in> entity_id_index ` set ?d"
    then obtain u where u: "u \<in> set ?d" and eq: "entity_id_index ?new = entity_id_index u" by auto
    from u bnd have "entity_id_index u \<le> last_entity_id r" by blast
    with eq ff(1,2) show False by simp
  qed
  have "distinct (map entity_id_index (?d @ [?new]))"
    using dist nin by simp
  moreover have "\<forall>e \<in> set (?d @ [?new]). 0 < entity_id_index e \<and> entity_id_index e \<le> ?new"
  proof
    fix e assume "e \<in> set (?d @ [?new])"
    then consider "e \<in> set ?d" | "e = ?new" by auto
    then show "0 < entity_id_index e \<and> entity_id_index e \<le> ?new"
    proof cases
      case 1
      with bnd have "0 < entity_id_index e" "entity_id_index e \<le> last_entity_id r" by blast+
      moreover have "last_entity_id r \<le> ?new" using ff(2) by (rule less_imp_le)
      ultimately show ?thesis by (blast intro: order_trans)
    next
      case 2
      then show ?thesis using ff(1,4) by simp
    qed
  qed
  ultimately have "entities_inv ?r'"
    using wf' free cge ff(3) by (simp add: entities_inv_def d')
  with res d' show ?thesis by blast
qed

lemma create_entity_overflow:
  assumes "free_entity_ids r = []" "last_entity_id r \<ge> entity_id_index_mask"
  shows "create_entity p r = (Inl Logic_error, r)"
  using assms by (simp add: create_entity_def)

lemma create_entity_reuse:
  assumes inv: "entities_inv r" and free: "free_entity_ids r \<noteq> []" and ok: "platform_ok p"
  shows "\<exists>ids. create_entity p r =
        (Inr (upgrade_entity_id (last (free_entity_ids r))),
         r\<lparr>entity_ids := ids, free_entity_ids := butlast (free_entity_ids r)\<rparr>)
      \<and> dense ids = dense (entity_ids r) @ [upgrade_entity_id (last (free_entity_ids r))]
      \<and> entities_inv (r\<lparr>entity_ids := ids, free_entity_ids := butlast (free_entity_ids r)\<rparr>)"
proof -
  let ?old = "last (free_entity_ids r)" and ?d = "dense (entity_ids r)"
  let ?new = "upgrade_entity_id ?old" and ?fr = "butlast (free_entity_ids r)"
  have fr: "free_entity_ids r = ?fr @ [?old]" using free by simp
  have ix: "entity_id_index ?new = entity_id_index ?old" by (rule upgrade_entity_id_index)
  from inv have wf: "ss_wf entity_id_indexer (entity_ids r)"
    and dist: "distinct (map entity_id_index (?d @ free_entity_ids r))"
    and bnd: "\<forall>e \<in> set (?d @ free_entity_ids r). 0 < entity_id_index e \<and> entity_id_index e \<le> last_entity_id r"
    and lm: "last_entity_id r \<le> entity_id_index_mask"
    and cap: "length (free_entity_ids r) + length ?d \<le> free_entity_ids_capacity r"
    by (simp_all add: entities_inv_def)
  from ok have mx: "2 ^ 22 \<le> sparse_max_size p" by (simp add: platform_ok_def)
  have dist2: "distinct (map entity_id_index (?d @ ?fr @ [?old]))" using dist fr by simp
  from dist2 have d1: "distinct (map entity_id_index ?d)"
    and d2: "distinct (map entity_id_index ?fr)"
    and n1: "entity_id_index ?old \<notin> entity_id_index ` set ?d"
    and n2: "entity_id_index ?old \<notin> entity_id_index ` set ?fr"
    and dj: "entity_id_index ` set ?d \<inter> entity_id_index ` set ?fr = {}"
    by auto
  have fresh: "\<forall>u \<in> set ?d. entity_id_indexer u \<noteq> entity_id_indexer ?new"
  proof
    fix u assume "u \<in> set ?d"
    then have "entity_id_index u \<in> entity_id_index ` set ?d" by (rule imageI)
    with n1 show "entity_id_indexer u \<noteq> entity_id_indexer ?new"
      by (auto simp: entity_id_indexer_eq ix)
  qed
  have "entity_id_indexer ?new < sparse_max_size p" using entity_id_indexer_bound[of ?new] mx by simp
  from sparse_set_insert_ok[of entity_id_indexer ?new "sparse_max_size p" "entity_ids r", OF this entity_id_indexer_fits]
  obtain b ids where ins: "sparse_set_insert entity_id_indexer (sparse_max_size p) (entity_ids r) ?new = Inr (b, ids)"
    by blast
  from sparse_set_insert_new[OF wf fresh ins]
  have d': "dense ids = ?d @ [?new]" and wf': "ss_wf entity_id_indexer ids" by simp_all
  let ?r' = "r\<lparr>entity_ids := ids, free_entity_ids := ?fr\<rparr>"
  have res: "create_entity p r = (Inr ?new, ?r')"
    using free ins by (simp add: create_entity_def Let_def)
  have "distinct (map entity_id_index (?d @ [?new] @ ?fr))"
    using d1 d2 n1 n2 dj by (simp add: ix)
  moreover have "\<forall>e \<in> set (?d @ [?new] @ ?fr). 0 < entity_id_index e \<and> entity_id_index e \<le> last_entity_id r"
  proof -
    have "?old \<in> set (?d @ free_entity_ids r)" using free by simp
    with bnd have "0 < entity_id_index ?old \<and> entity_id_index ?old \<le> last_entity_id r" by blast
    moreover have "set ?fr \<subseteq> set (free_entity_ids r)" by (auto dest: in_set_butlastD)
    ultimately show ?thesis using bnd by (auto simp: ix)
  qed
  moreover have "length ?fr + length (?d @ [?new]) \<le> free_entity_ids_capacity r"
    using cap free by (simp add: Suc_leI)
  ultimately have "entities_inv ?r'"
    using wf' lm by (simp add: entities_inv_def d')
  with res d' show ?thesis by blast
qed

lemma component_at_storages:
  "storages a = storages b \<Longrightarrow> component_at a f e = component_at b f e"
  by (simp add: component_at_def find_storage_def storage_at_def split: option.splits)

lemma destroy_entity_inv:
  assumes inv: "registry_inv r" and valid: "valid_entity r e"
  shows "\<exists>m ids. destroy_entity p r e =
        Inr (r\<lparr>storages := m, entity_ids := ids, free_entity_ids := free_entity_ids r @ [e]\<rparr>)
      \<and> length (free_entity_ids r) < free_entity_ids_capacity r
      \<and> set (dense ids) = set (dense (entity_ids r)) - {e}
      \<and> length (dense ids) = length (dense (entity_ids r)) - 1
      \<and> registry_inv (r\<lparr>storages := m, entity_ids := ids,
                          free_entity_ids := free_entity_ids r @ [e]\<rparr>)
      \<and> (\<forall>f' e'. component_at (r\<lparr>storages := m, entity_ids := ids,
                          free_entity_ids := free_entity_ids r @ [e]\<rparr>) f' e' =
            (if e' = e then None else component_at r f' e'))"
proof -
  let ?d = "dense (entity_ids r)" and ?fr = "free_entity_ids r"
  from inv have ei: "entities_inv r" by (simp add: registry_inv_def)
  then have wf: "ss_wf entity_id_indexer (entity_ids r)"
    and dist: "distinct (map entity_id_index (?d @ ?fr))"
    and bnd: "\<forall>x \<in> set (?d @ ?fr). 0 < entity_id_index x \<and> entity_id_index x \<le> last_entity_id r"
    and lm: "last_entity_id r \<le> entity_id_index_mask"
    and cap: "length ?fr + length ?d \<le> free_entity_ids_capacity r"
    by (simp_all add: entities_inv_def)
  from valid ei have live: "e \<in> set ?d" by (simp add: valid_entity_iff)
  then have dne: "0 < length ?d" by (cases ?d) auto
  with cap have room: "length ?fr < free_entity_ids_capacity r" by linarith
  from remove_all_components_inv[OF inv valid, of p] obtain n m where
    ra: "remove_all_components p r e = Inr (n, r\<lparr>storages := m\<rparr>)"
    and si1: "storages_inv (r\<lparr>storages := m\<rparr>)"
    and gone: "\<forall>st \<in> set (vals m). e \<notin> set (dense (keys st))"
    and ca: "\<forall>f' e'. component_at (r\<lparr>storages := m\<rparr>) f' e' =
            (if e' = e then None else component_at r f' e')" by blast
  obtain b ids where er: "sparse_set_unordered_erase entity_id_indexer (entity_ids r) e = (b, ids)"
    by (cases "sparse_set_unordered_erase entity_id_indexer (entity_ids r) e")
  from sparse_set_erase_wf[OF wf er] live
  have wf': "ss_wf entity_id_indexer ids" and ds: "set (dense ids) = set ?d - {e}"
    and b: "b" and dl: "length (dense ids) = length ?d - 1" by simp_all
  let ?r' = "r\<lparr>storages := m, entity_ids := ids, free_entity_ids := ?fr @ [e]\<rparr>"
  have res: "destroy_entity p r e = Inr ?r'"
    using valid ra er b room by (simp add: destroy_entity_def vector_push_back_capacity_def)
  have dd: "distinct (dense ids)" using wf' by (rule ss_wf_distinct)
  from dist have dist_all: "distinct (?d @ ?fr)" and inj: "inj_on entity_id_index (set (?d @ ?fr))"
    by (simp_all only: distinct_map)
  have efr: "e \<notin> set ?fr" using dist_all live by auto
  have "distinct (dense ids @ ?fr @ [e])"
    using dd dist_all ds efr by auto
  moreover have seteq: "set (dense ids @ ?fr @ [e]) = set (?d @ ?fr)" using ds live by auto
  ultimately have dist': "distinct (map entity_id_index (dense ids @ ?fr @ [e]))"
    using inj by (simp only: distinct_map)
  have bnd': "\<forall>x \<in> set (dense ids @ ?fr @ [e]). 0 < entity_id_index x \<and> entity_id_index x \<le> last_entity_id r"
    using bnd unfolding seteq .
  have cap': "length (?fr @ [e]) + length (dense ids) \<le> free_entity_ids_capacity r"
  proof -
    have "length (?fr @ [e]) = length ?fr + 1" by simp
    with cap dl dne show ?thesis by linarith
  qed
  have ei': "entities_inv ?r'"
    using wf' dist' bnd' lm cap' by (simp add: entities_inv_def)
  have si': "storages_inv ?r'"
    using si1 gone ds by (auto simp: storages_inv_def)
  have ca': "component_at ?r' f' e' = (if e' = e then None else component_at r f' e')" for f' e'
  proof -
    have "component_at ?r' f' e' = component_at (r\<lparr>storages := m\<rparr>) f' e'"
      by (rule component_at_storages) simp
    with ca show ?thesis by simp
  qed
  from res room ds dl ei' si' ca' show ?thesis unfolding registry_inv_def by blast
qed

lemma registry_inv_empty: "registry_inv registry_empty"
  by (simp add: registry_inv_def entities_inv_def storages_inv_def registry_empty_def
      ss_wf_empty sm_wf_empty)
     (simp add: sparse_set_empty_def sparse_map_empty_def entity_id_masks_numeral)

lemma storages_inv_entities_grow:
  assumes "storages_inv r" "set (dense (entity_ids r)) \<subseteq> set (dense ids)"
    and "storages r' = storages r" "entity_ids r' = ids"
  shows "storages_inv r'"
  using assms by (auto simp: storages_inv_def)

lemma create_entity_cases:
  assumes inv: "registry_inv r" and ok: "platform_ok p"
  shows "(free_entity_ids r = [] \<and> last_entity_id r \<ge> entity_id_index_mask
          \<and> create_entity p r = (Inl Logic_error, r))
       \<or> (\<exists>e r'. create_entity p r = (Inr e, r') \<and> registry_inv r'
             \<and> \<not> (free_entity_ids r = [] \<and> last_entity_id r \<ge> entity_id_index_mask)
             \<and> dense (entity_ids r') = dense (entity_ids r) @ [e]
             \<and> storages r' = storages r
             \<and> e = (if free_entity_ids r = [] then last_entity_id r + 1
                    else upgrade_entity_id (last (free_entity_ids r)))
             \<and> free_entity_ids r' = butlast (free_entity_ids r)
             \<and> last_entity_id r' = (if free_entity_ids r = [] then last_entity_id r + 1
                    else last_entity_id r))"
proof -
  from inv have ei: "entities_inv r" and si: "storages_inv r" by (simp_all add: registry_inv_def)
  show ?thesis
  proof (cases "free_entity_ids r = []")
    case False
    from create_entity_reuse[OF ei False ok] obtain ids where
      c: "create_entity p r = (Inr (upgrade_entity_id (last (free_entity_ids r))),
           r\<lparr>entity_ids := ids, free_entity_ids := butlast (free_entity_ids r)\<rparr>)"
      and d: "dense ids = dense (entity_ids r) @ [upgrade_entity_id (last (free_entity_ids r))]"
      and e: "entities_inv (r\<lparr>entity_ids := ids, free_entity_ids := butlast (free_entity_ids r)\<rparr>)"
      by blast
    have "storages_inv (r\<lparr>entity_ids := ids, free_entity_ids := butlast (free_entity_ids r)\<rparr>)"
      by (rule storages_inv_entities_grow[OF si, of ids]) (auto simp: d)
    with c d e False show ?thesis by (simp add: registry_inv_def)
  next
    case True
    show ?thesis
    proof (cases "last_entity_id r \<ge> entity_id_index_mask")
      case ge: True
      with True create_entity_overflow[OF True ge, of p] show ?thesis by simp
    next
      case lt: False
      then have l: "last_entity_id r < entity_id_index_mask" by simp
      from create_entity_fresh[OF ei True l ok] obtain c ids where
        c: "create_entity p r = (Inr (last_entity_id r + 1),
           r\<lparr>free_entity_ids_capacity := c, entity_ids := ids, last_entity_id := last_entity_id r + 1\<rparr>)"
        and d: "dense ids = dense (entity_ids r) @ [last_entity_id r + 1]"
        and e: "entities_inv (r\<lparr>free_entity_ids_capacity := c, entity_ids := ids,
           last_entity_id := last_entity_id r + 1\<rparr>)" by blast
      have "storages_inv (r\<lparr>free_entity_ids_capacity := c, entity_ids := ids,
           last_entity_id := last_entity_id r + 1\<rparr>)"
        by (rule storages_inv_entities_grow[OF si, of ids]) (auto simp: d)
      with c d e True lt show ?thesis by (simp add: registry_inv_def)
    qed
  qed
qed

lemma registry_step_inv:
  assumes inv: "registry_inv r" and ok: "platform_ok p" and pre: "op_precondition r x"
    and step: "registry_step p r x = Inr r'"
  shows "registry_inv r'"
proof (cases x)
  case Create_entity
  with step create_entity_cases[OF inv ok] show ?thesis by (auto split: prod.splits sum.splits)
next
  case (Destroy_entity e)
  with destroy_entity_inv[OF inv, of e p] pre step show ?thesis by auto
next
  case (Assign_component f e v)
  with assign_component_inv[OF inv _ ok, of e f v] pre step inv show ?thesis
    by (auto simp: registry_inv_def)
next
  case (Ensure_component f e v)
  with ensure_component_inv[OF inv _ ok, of e f v] pre step inv show ?thesis
    by (auto simp: registry_inv_def)
next
  case (Remove_component f e)
  with remove_component_inv[OF inv, of e p f] pre step inv show ?thesis
    by (auto simp: registry_inv_def)
next
  case (Remove_all_components e)
  with remove_all_components_inv[OF inv, of e p] pre step inv show ?thesis
    by (auto simp: registry_inv_def)
next
  case (Remove_all_components_of f)
  with remove_all_components_of_inv[OF inv, of f] step inv show ?thesis
    by (auto simp: registry_inv_def)
qed

lemma reachable_inv: "reachable p r \<Longrightarrow> platform_ok p \<Longrightarrow> registry_inv r"
  by (induction rule: reachable.induct) (auto intro: registry_inv_empty registry_step_inv)

subsection \<open>Versions of reissued ids\<close>

lemma version_mask_add: "((a AND mask 10) + b) AND mask 10 = (a + b) AND mask 10" for a b :: "32 word"
  using mask_eqs(1) by blast

lemma entity_id_version_masked: "entity_id_version x AND entity_id_version_mask = entity_id_version x"
  by (simp add: entity_id_version_def and.assoc)

lemma entity_id_version_upgrade:
  "entity_id_version (upgrade_entity_id x) = (entity_id_version x + 1) AND entity_id_version_mask"
  unfolding upgrade_entity_id_def
  by (rule entity_id_version_join) (rule entity_id_index_idem)

lemma entity_id_eqI:
  assumes "entity_id_index a = entity_id_index b" "entity_id_version a = entity_id_version b"
  shows "a = b"
proof (rule bit_word_eqI)
  fix n assume n: "n < LENGTH(32)"
  show "bit a n = bit b n"
  proof (cases "n < 22")
    case True
    have "bit (entity_id_index a) n = bit (entity_id_index b) n" using assms(1) by simp
    then show ?thesis using True by (simp add: entity_id_index_def entity_id_masks bit_simps)
  next
    case False
    then have m: "n - 22 < 10" using n by simp
    have "bit (entity_id_version a) (n - 22) = bit (entity_id_version b) (n - 22)"
      using assms(2) by simp
    then show ?thesis using False m n
      by (simp add: entity_id_version_def entity_id_masks entity_id_index_bits_def bit_simps)
  qed
qed

lemma unat_and_mask_10: "unat ((w :: 32 word) AND mask 10) = unat w mod 2 ^ 10"
proof -
  have "unat (w AND mask 10) = unat (take_bit 10 w)" by (simp only: take_bit_eq_mask)
  also have "\<dots> = take_bit 10 (unat w)" by (rule unsigned_take_bit_eq)
  also have "\<dots> = unat w mod 2 ^ 10" by (rule take_bit_eq_mod)
  finally show ?thesis .
qed

lemma mod_1024_shift: "a < 1024 \<Longrightarrow> 0 < k \<Longrightarrow> k < 1024 \<Longrightarrow> (a + k) mod 1024 \<noteq> (a :: nat)"
proof (cases "a + k < 1024")
  case True
  assume "0 < k"
  with True show ?thesis by simp
next
  case False
  assume "a < 1024" "k < 1024"
  with False have "(a + k) mod 1024 = a + k - 1024"
    by (simp add: mod_if)
  with \<open>k < 1024\<close> False show ?thesis by simp
qed

lemma version_shift:
  fixes v :: "32 word"
  assumes eq: "(v + of_nat k) AND mask 10 = v" and k: "0 < k" "k < 1024"
  shows False
proof -
  let ?a = "unat v"
  have a: "?a < 1024" using unat_and_mask_10[of "v + of_nat k"] eq by simp
  have "unat ((v + of_nat k) AND mask 10) = unat (v + of_nat k) mod 2 ^ 10"
    by (rule unat_and_mask_10)
  also have "unat (v + of_nat k) = (?a + k) mod 2 ^ 32"
    using k by (simp add: unat_word_ariths unat_of_nat)
  also have "(?a + k) mod 2 ^ 32 mod 2 ^ 10 = (?a + k) mod 2 ^ 10"
    by (rule mod_mod_cancel) simp
  finally have "(?a + k) mod 1024 = ?a" using eq by simp
  with mod_1024_shift[OF a k] show False by simp
qed

lemma upgrade_entity_id_neq: "upgrade_entity_id e \<noteq> e"
proof
  assume "upgrade_entity_id e = e"
  then have "entity_id_version (upgrade_entity_id e) = entity_id_version e" by simp
  then have "(entity_id_version e + of_nat 1) AND mask 10 = entity_id_version e"
    by (simp add: entity_id_version_upgrade entity_id_masks)
  then show False by (rule version_shift) simp_all
qed

lemma slot_unique:
  assumes inv: "entities_inv r"
    and a: "a \<in> set (dense (entity_ids r) @ free_entity_ids r)"
    and b: "b \<in> set (dense (entity_ids r) @ free_entity_ids r)"
    and eq: "entity_id_index a = entity_id_index b"
  shows "a = b"
proof -
  from inv have "distinct (map entity_id_index (dense (entity_ids r) @ free_entity_ids r))"
    by (simp add: entities_inv_def)
  then have "inj_on entity_id_index (set (dense (entity_ids r) @ free_entity_ids r))"
    by (simp only: distinct_map)
  with a b eq show ?thesis by (auto dest: inj_onD)
qed

lemma slot_state_invalid:
  assumes inv: "entities_inv r" and s: "slot_state r e k" and k: "k < 1024"
  shows "\<not> valid_entity r e"
proof
  assume "valid_entity r e"
  with inv have live: "e \<in> set (dense (entity_ids r))" by (simp add: valid_entity_iff)
  from s obtain x where x: "x \<in> set (dense (entity_ids r) @ free_entity_ids r)"
    and ix: "entity_id_index x = entity_id_index e"
    and v: "entity_id_version x = (entity_id_version e + of_nat k) AND entity_id_version_mask"
    and l: "x \<in> set (dense (entity_ids r)) \<longrightarrow> 0 < k"
    by (auto simp: slot_state_def)
  from live have "e \<in> set (dense (entity_ids r) @ free_entity_ids r)" by simp
  from slot_unique[OF inv x this ix] have xe: "x = e" .
  with l live have "0 < k" by simp
  moreover from v xe have "(entity_id_version e + of_nat k) AND mask 10 = entity_id_version e"
    by (simp add: entity_id_masks)
  ultimately show False using k version_shift by blast
qed

lemma slot_state_storages_update: "slot_state (r\<lparr>storages := m\<rparr>) e k = slot_state r e k"
  by (simp add: slot_state_def)

lemma slot_state_create:
  assumes inv: "registry_inv r" and ok: "platform_ok p" and s: "slot_state r e k"
    and c: "create_entity p r = (Inr e', r')"
  shows "slot_state r' e (k + (if entity_id_index e' = entity_id_index e then 1 else 0))"
proof -
  from inv have ei: "entities_inv r" by (simp add: registry_inv_def)
  from create_entity_cases[OF inv ok] c
  have d': "dense (entity_ids r') = dense (entity_ids r) @ [e']"
    and f': "free_entity_ids r' = butlast (free_entity_ids r)"
    and e': "e' = (if free_entity_ids r = [] then last_entity_id r + 1
                    else upgrade_entity_id (last (free_entity_ids r)))"
    and nf: "\<not> (free_entity_ids r = [] \<and> last_entity_id r \<ge> entity_id_index_mask)"
    by auto
  from s obtain x where x: "x \<in> set (dense (entity_ids r) @ free_entity_ids r)"
    and ix: "entity_id_index x = entity_id_index e"
    and v: "entity_id_version x = (entity_id_version e + of_nat k) AND entity_id_version_mask"
    and l: "x \<in> set (dense (entity_ids r)) \<longrightarrow> 0 < k"
    by (auto simp: slot_state_def)
  from ei have bnd: "\<forall>y \<in> set (dense (entity_ids r) @ free_entity_ids r).
      0 < entity_id_index y \<and> entity_id_index y \<le> last_entity_id r"
    by (simp add: entities_inv_def)
  show ?thesis
  proof (cases "free_entity_ids r = []")
    case True
    with nf have lt: "last_entity_id r < entity_id_index_mask" by simp
    note ff = fresh_id_facts[OF lt]
    from True e' have en: "e' = last_entity_id r + 1" by simp
    from x bnd have "entity_id_index x \<le> last_entity_id r" by blast
    with ff(1,2) en have ne: "entity_id_index e' \<noteq> entity_id_index x" by auto
    from x True have xd: "x \<in> set (dense (entity_ids r))" by simp
    with l have "0 < k" by simp
    with xd ix v have "slot_state r' e k"
      unfolding slot_state_def by (intro bexI[of _ x]) (simp_all add: d')
    with ne ix show ?thesis by simp
  next
    case False
    let ?old = "last (free_entity_ids r)"
    from False e' have en: "e' = upgrade_entity_id ?old" by simp
    then have ie: "entity_id_index e' = entity_id_index ?old" by (simp add: upgrade_entity_id_index)
    have oldin: "?old \<in> set (dense (entity_ids r) @ free_entity_ids r)" using False by simp
    show ?thesis
    proof (cases "entity_id_index ?old = entity_id_index e")
      case True
      with slot_unique[OF ei oldin x] ix have ox: "?old = x" by simp
      have "entity_id_version e' =
          (((entity_id_version e + of_nat k) AND mask 10) + 1) AND mask 10"
        using v by (simp add: en ox entity_id_version_upgrade entity_id_masks)
      also have "\<dots> = ((entity_id_version e + of_nat k) + 1) AND mask 10"
        by (rule version_mask_add)
      also have "(entity_id_version e + of_nat k) + 1 = entity_id_version e + of_nat (k + 1)"
        by simp
      finally have "entity_id_version e' =
          (entity_id_version e + of_nat (k + 1)) AND entity_id_version_mask"
        by (simp add: entity_id_masks)
      then have "slot_state r' e (k + 1)"
        unfolding slot_state_def using True ie by (intro bexI[of _ e']) (simp_all add: d')
      with True ie show ?thesis by simp
    next
      case ne: False
      with ix have xo: "x \<noteq> ?old" by auto
      have fr: "free_entity_ids r = butlast (free_entity_ids r) @ [?old]" using False by simp
      from x xo have xin: "x \<in> set (dense (entity_ids r)) \<or> x \<in> set (butlast (free_entity_ids r))"
        by (subst (asm) fr) auto
      have xe: "x \<noteq> e'" using ne ie ix by auto
      have "slot_state r' e k"
        unfolding slot_state_def using xin ix v l xe by (intro bexI[of _ x]) (auto simp: d' f')
      with ne ie show ?thesis by simp
    qed
  qed
qed

lemma slot_state_destroy:
  assumes inv: "registry_inv r" and s: "slot_state r e k" and valid: "valid_entity r d"
    and c: "destroy_entity p r d = Inr r'"
  shows "slot_state r' e k"
proof -
  from destroy_entity_inv[OF inv valid, of p] c obtain m ids where
    r': "r' = r\<lparr>storages := m, entity_ids := ids, free_entity_ids := free_entity_ids r @ [d]\<rparr>"
    and ds: "set (dense ids) = set (dense (entity_ids r)) - {d}" by auto
  from s obtain x where x: "x \<in> set (dense (entity_ids r) @ free_entity_ids r)"
    and ix: "entity_id_index x = entity_id_index e"
    and v: "entity_id_version x = (entity_id_version e + of_nat k) AND entity_id_version_mask"
    and l: "x \<in> set (dense (entity_ids r)) \<longrightarrow> 0 < k"
    by (auto simp: slot_state_def)
  show ?thesis
    unfolding slot_state_def using x ix v l by (intro bexI[of _ x]) (auto simp: r' ds)
qed

lemma slot_state_step:
  assumes inv: "registry_inv r" and ok: "platform_ok p" and s: "slot_state r e k"
    and pre: "op_precondition r x" and step: "registry_step p r x = Inr r'"
  shows "slot_state r' e
     (k + (if map_option entity_id_index (issued_id p r x) = Some (entity_id_index e) then 1 else 0))"
proof (cases x)
  case Create_entity
  with step obtain e' where c: "create_entity p r = (Inr e', r')"
    by (auto split: prod.splits sum.splits)
  from slot_state_create[OF inv ok s c] c show ?thesis by (simp add: Create_entity)
next
  case (Destroy_entity d)
  with slot_state_destroy[OF inv s, of d p r'] pre step show ?thesis by simp
next
  case (Assign_component f a v)
  with assign_component_inv[OF inv _ ok, of a f v] pre step s show ?thesis
    by (auto simp: slot_state_storages_update)
next
  case (Ensure_component f a v)
  with ensure_component_inv[OF inv _ ok, of a f v] pre step s show ?thesis
    by (auto simp: slot_state_storages_update)
next
  case (Remove_component f a)
  with remove_component_inv[OF inv, of a p f] pre step s show ?thesis
    by (auto simp: slot_state_storages_update)
next
  case (Remove_all_components a)
  with remove_all_components_inv[OF inv, of a p] pre step s show ?thesis
    by (auto simp: slot_state_storages_update)
next
  case (Remove_all_components_of f)
  with remove_all_components_of_inv[OF inv, of f] step s show ?thesis
    by (auto simp: slot_state_storages_update)
qed

lemma slot_state_run:
  assumes "registry_inv r" "platform_ok p" "slot_state r e k" "registry_run p r ops = Inr r'"
  shows "slot_state r' e (k + slot_issues p r ops (entity_id_index e)) \<and> registry_inv r'"
  using assms
proof (induction ops arbitrary: r k)
  case Nil
  then show ?case by simp
next
  case (Cons x xs)
  from Cons.prems(4) obtain r1 where pre: "op_precondition r x"
    and step: "registry_step p r x = Inr r1" and run: "registry_run p r1 xs = Inr r'"
    by (auto split: if_splits sum.splits)
  note inv1 = registry_step_inv[OF Cons.prems(1,2) pre step]
  note s1 = slot_state_step[OF Cons.prems(1,2,3) pre step]
  from Cons.IH[OF inv1 Cons.prems(2) s1 run] step show ?case by (simp add: add.assoc)
qed

subsection \<open>Concrete registries\<close>

lemma platform_ok_lp64: "platform_ok lp64"
  by (simp add: platform_ok_def lp64_def)

lemma entity_id_indexer_of_index: "entity_id_index x = 1 \<Longrightarrow> entity_id_indexer x = Suc 0"
  by (simp add: entity_id_indexer_def)

lemma create_entity_first:
  "create_entity lp64 (registry_empty :: 'v registry) =
     (Inr 1, \<lparr>last_entity_id = 1, free_entity_ids = [], free_entity_ids_capacity = 1,
              entity_ids = \<lparr>dense = [1], sparse = [0, 0]\<rparr>, storages = sparse_map_empty\<rparr>)"
proof -
  have ix: "entity_id_indexer 1 = Suc 0"
    by (rule entity_id_indexer_of_index) (simp add: entity_id_index_def entity_id_masks_numeral)
  have ins: "sparse_set_insert entity_id_indexer 1152921504606846975 sparse_set_empty 1
      = Inr (True, \<lparr>dense = [1], sparse = [0, 0]\<rparr>)"
    by (simp add: sparse_set_empty_def sparse_set_insert_def sparse_set_has_def
        next_capacity_size_def vector_resize_def Let_def ix)
  show ?thesis
    by (simp add: create_entity_def registry_empty_def lp64_def entity_id_masks_numeral
        sparse_set_size_def next_capacity_size_def vector_reserve_def ins)
       (simp add: sparse_set_empty_def)
qed

lemma destroy_entity_single:
  assumes "entity_id_index x = 1"
  shows "destroy_entity lp64
       \<lparr>last_entity_id = 1, free_entity_ids = [], free_entity_ids_capacity = Suc 0,
        entity_ids = \<lparr>dense = [x], sparse = [0, 0]\<rparr>, storages = sparse_map_empty\<rparr> x
     = Inr \<lparr>last_entity_id = 1, free_entity_ids = [x], free_entity_ids_capacity = Suc 0,
        entity_ids = \<lparr>dense = [], sparse = [0, 0]\<rparr>, storages = sparse_map_empty\<rparr>"
proof -
  note ix = entity_id_indexer_of_index[OF assms]
  have has: "sparse_set_has entity_id_indexer \<lparr>dense = [x], sparse = [0, 0]\<rparr> x"
    by (simp add: sparse_set_has_def ix)
  have er: "sparse_set_unordered_erase entity_id_indexer \<lparr>dense = [x], sparse = [0, 0]\<rparr> x
      = (True, \<lparr>dense = [], sparse = [0, 0]\<rparr>)"
    using has by (simp add: sparse_set_unordered_erase_def ix)
  have ra: "remove_all_components lp64
       \<lparr>last_entity_id = 1, free_entity_ids = [], free_entity_ids_capacity = Suc 0,
        entity_ids = \<lparr>dense = [x], sparse = [0, 0]\<rparr>, storages = sparse_map_empty\<rparr> x
     = Inr (0, \<lparr>last_entity_id = 1, free_entity_ids = [], free_entity_ids_capacity = Suc 0,
        entity_ids = \<lparr>dense = [x], sparse = [0, 0]\<rparr>, storages = sparse_map_empty\<rparr>)"
    using has by (simp add: remove_all_components_def valid_entity_def sparse_map_empty_def
        sparse_set_empty_def)
  show ?thesis
    using has by (simp add: destroy_entity_def valid_entity_def ra er vector_push_back_capacity_def)
qed

lemma create_entity_single:
  assumes "entity_id_index x = 1"
  shows "create_entity lp64
       \<lparr>last_entity_id = 1, free_entity_ids = [x], free_entity_ids_capacity = Suc 0,
        entity_ids = \<lparr>dense = [], sparse = [0, 0]\<rparr>, storages = sparse_map_empty\<rparr>
     = (Inr (upgrade_entity_id x),
        \<lparr>last_entity_id = 1, free_entity_ids = [], free_entity_ids_capacity = Suc 0,
        entity_ids = \<lparr>dense = [upgrade_entity_id x], sparse = [0, 0]\<rparr>,
        storages = sparse_map_empty\<rparr>)"
proof -
  have "entity_id_index (upgrade_entity_id x) = 1" using assms by (simp add: upgrade_entity_id_index)
  note ix = entity_id_indexer_of_index[OF this]
  have ins: "sparse_set_insert entity_id_indexer (sparse_max_size lp64) \<lparr>dense = [], sparse = [0, 0]\<rparr>
        (upgrade_entity_id x)
      = Inr (True, \<lparr>dense = [upgrade_entity_id x], sparse = [0, 0]\<rparr>)"
    by (simp add: sparse_set_insert_def sparse_set_has_def Let_def ix)
  show ?thesis by (simp add: create_entity_def Let_def ins)
qed

lemma recycle_run:
  assumes "entity_id_index x = 1"
  shows "registry_run lp64
       \<lparr>last_entity_id = 1, free_entity_ids = [], free_entity_ids_capacity = Suc 0,
        entity_ids = \<lparr>dense = [x], sparse = [0, 0]\<rparr>, storages = sparse_map_empty\<rparr>
       (recycle_ops x n)
     = Inr \<lparr>last_entity_id = 1, free_entity_ids = [], free_entity_ids_capacity = Suc 0,
        entity_ids = \<lparr>dense = [(upgrade_entity_id ^^ n) x], sparse = [0, 0]\<rparr>,
        storages = sparse_map_empty\<rparr>"
  using assms
proof (induction n arbitrary: x)
  case 0
  then show ?case by simp
next
  case (Suc n)
  have v: "valid_entity \<lparr>last_entity_id = 1, free_entity_ids = [], free_entity_ids_capacity = Suc 0,
        entity_ids = \<lparr>dense = [x], sparse = [0, 0]\<rparr>, storages = sparse_map_empty\<rparr> x"
    by (simp add: valid_entity_def sparse_set_has_def entity_id_indexer_of_index[OF Suc.prems])
  have ix': "entity_id_index (upgrade_entity_id x) = 1"
    using Suc.prems by (simp add: upgrade_entity_id_index)
  show ?case
    by (simp add: v destroy_entity_single[OF Suc.prems] create_entity_single[OF Suc.prems]
        Suc.IH[OF ix'] funpow_swap1)
qed

lemma upgrade_funpow:
  "entity_id_index ((upgrade_entity_id ^^ n) x) = entity_id_index x
   \<and> entity_id_version ((upgrade_entity_id ^^ n) x) =
       (entity_id_version x + of_nat n) AND mask 10"
proof (induction n)
  case 0
  show ?case using entity_id_version_masked[of x] by (simp add: entity_id_masks)
next
  case (Suc n)
  have "entity_id_version ((upgrade_entity_id ^^ Suc n) x) =
      (((entity_id_version x + of_nat n) AND mask 10) + 1) AND mask 10"
    using Suc by (simp add: entity_id_version_upgrade entity_id_masks)
  also have "\<dots> = ((entity_id_version x + of_nat n) + 1) AND mask 10"
    by (rule version_mask_add)
  also have "(entity_id_version x + of_nat n) + 1 = entity_id_version x + of_nat (Suc n)"
    by simp
  finally show ?case using Suc by (simp add: upgrade_entity_id_index)
qed

lemma upgrade_1024_times: "(upgrade_entity_id ^^ 1024) 1 = 1"
proof (rule entity_id_eqI)
  show "entity_id_index ((upgrade_entity_id ^^ 1024) 1) = entity_id_index 1"
    using upgrade_funpow[of 1024 1] by simp
  have "entity_id_version 1 = 0"
    by (simp add: entity_id_version_def entity_id_index_bits_def)
  then show "entity_id_version ((upgrade_entity_id ^^ 1024) 1) = entity_id_version 1"
    using upgrade_funpow[of 1024 1] by (simp add: mask_eq_exp_minus_1)
qed

subsection \<open>Entity lifecycle\<close>

lemma registry_run_creates:
  assumes "registry_inv r" "platform_ok p" "free_entity_ids r = []"
    and "unat (last_entity_id r) + n \<le> 4194303"
  shows "\<exists>r'. registry_run p r (replicate n Create_entity) = Inr r' \<and> registry_inv r'
      \<and> free_entity_ids r' = [] \<and> unat (last_entity_id r') = unat (last_entity_id r) + n
      \<and> length (dense (entity_ids r')) = length (dense (entity_ids r)) + n"
  using assms
proof (induction n arbitrary: r)
  case 0
  then show ?case by simp
next
  case (Suc n)
  from Suc.prems(4) have lt: "last_entity_id r < entity_id_index_mask"
    by (simp add: entity_id_masks_numeral word_less_nat_alt)
  then have nge: "\<not> entity_id_index_mask \<le> last_entity_id r" by simp
  from create_entity_cases[OF Suc.prems(1,2)] Suc.prems(3) nge obtain r1 where
    c: "create_entity p r = (Inr (last_entity_id r + 1), r1)" and inv1: "registry_inv r1"
    and d1: "dense (entity_ids r1) = dense (entity_ids r) @ [last_entity_id r + 1]"
    and f1: "free_entity_ids r1 = []" and l1: "last_entity_id r1 = last_entity_id r + 1"
    by auto
  have u: "unat (last_entity_id r + 1) = unat (last_entity_id r) + 1"
    using Suc.prems(4) by (simp add: unat_word_ariths)
  have b1: "unat (last_entity_id r1) + n \<le> 4194303" using Suc.prems(4) u l1 by simp
  from Suc.IH[OF inv1 Suc.prems(2) f1 b1] obtain r' where
    "registry_run p r1 (replicate n Create_entity) = Inr r'" "registry_inv r'"
    "free_entity_ids r' = []" "unat (last_entity_id r') = unat (last_entity_id r1) + n"
    "length (dense (entity_ids r')) = length (dense (entity_ids r1)) + n" by blast
  then show ?case using c d1 l1 u by simp
qed

text \<open>
  Claim C5. In a reachable registry \<open>create_entity\<close> fails exactly when the free list is
  empty and \<open>last_entity_id\<close> has reached \<open>index_mask\<close>; it then throws a logic error and
  leaves the registry as it was. Creating \<open>2^22 - 1\<close> entities from the empty registry
  succeeds, and the next \<open>create_entity\<close> fails so.
\<close>

theorem create_entity_fails_iff_exhausted:
  assumes "reachable p (r :: 'v registry)" and "platform_ok p"
  shows "((\<exists>err. fst (create_entity p r) = Inl err)
            \<longleftrightarrow> free_entity_ids r = [] \<and> entity_id_index_mask \<le> last_entity_id r)
       \<and> (free_entity_ids r = [] \<and> entity_id_index_mask \<le> last_entity_id r
            \<longrightarrow> create_entity p r = (Inl Logic_error, r))
       \<and> (\<exists>r'. registry_run p (registry_empty :: 'v registry)
                   (replicate (2 ^ 22 - 1) Create_entity) = Inr r'
              \<and> entity_count r' = 2 ^ 22 - 1
              \<and> create_entity p r' = (Inl Logic_error, r'))"
proof -
  note inv = reachable_inv[OF assms]
  from create_entity_cases[OF inv assms(2)]
  have 1: "(\<exists>err. fst (create_entity p r) = Inl err)
            \<longleftrightarrow> free_entity_ids r = [] \<and> entity_id_index_mask \<le> last_entity_id r"
    by auto
  have 2: "free_entity_ids r = [] \<and> entity_id_index_mask \<le> last_entity_id r
            \<longrightarrow> create_entity p r = (Inl Logic_error, r)"
    by (simp add: create_entity_overflow)
  have e: "free_entity_ids (registry_empty :: 'v registry) = []"
    "unat (last_entity_id (registry_empty :: 'v registry)) + (2 ^ 22 - 1) \<le> 4194303"
    "dense (entity_ids (registry_empty :: 'v registry)) = []"
    "unat (last_entity_id (registry_empty :: 'v registry)) = 0"
    by (simp_all add: registry_empty_def sparse_set_empty_def)
  from registry_run_creates[OF registry_inv_empty assms(2) e(1,2)] obtain r' :: "'v registry" where
    run: "registry_run p registry_empty (replicate (2 ^ 22 - 1) Create_entity) = Inr r'"
    and f: "free_entity_ids r' = []" and l: "unat (last_entity_id r') = 2 ^ 22 - 1"
    and n: "length (dense (entity_ids r')) = 2 ^ 22 - 1"
    by (auto simp: e(3,4))
  from l have "entity_id_index_mask \<le> last_entity_id r'"
    by (simp add: entity_id_masks_numeral word_le_nat_alt)
  with f have "create_entity p r' = (Inl Logic_error, r')" by (simp add: create_entity_overflow)
  with run n have 3: "\<exists>r'. registry_run p (registry_empty :: 'v registry)
                   (replicate (2 ^ 22 - 1) Create_entity) = Inr r'
              \<and> entity_count r' = 2 ^ 22 - 1
              \<and> create_entity p r' = (Inl Logic_error, r')"
    by (auto simp: entity_count_def sparse_set_size_def)
  from 1 2 3 show ?thesis by blast
qed

theorem create_entity_fails_iff_exhausted_witness:
  "reachable lp64 (registry_empty :: unit registry) \<and> platform_ok lp64
   \<and> fst (create_entity lp64 (registry_empty :: unit registry)) = Inr 1
   \<and> last_entity_id (registry_empty :: unit registry) < entity_id_index_mask
   \<and> (\<exists>r'. registry_run lp64 (registry_empty :: unit registry)
               (replicate (2 ^ 22 - 1) Create_entity) = Inr r'
          \<and> entity_count r' = 2 ^ 22 - 1
          \<and> create_entity lp64 r' = (Inl Logic_error, r'))"
proof -
  have re: "reachable lp64 (registry_empty :: unit registry)" by (rule reachable_empty)
  have "last_entity_id (registry_empty :: unit registry) < entity_id_index_mask"
    by (simp add: registry_empty_def entity_id_masks_numeral)
  with create_entity_fails_iff_exhausted [OF re platform_ok_lp64] re platform_ok_lp64
  show ?thesis by (simp add: create_entity_first)
qed

text \<open>
  Claim C6. In every reachable registry the capacity of the free list is at least the
  number of live entities, and at least the free and the live ids together; so when a
  valid entity is destroyed the free list has room, the assertion of \<open>destroy_entity\<close>
  holds, the push does not reallocate and the capacity stays as it was.
\<close>

theorem free_list_capacity_covers_live:
  assumes "reachable p r" and "platform_ok p"
  shows "entity_count r \<le> free_entity_ids_capacity r
       \<and> length (free_entity_ids r) + entity_count r \<le> free_entity_ids_capacity r
       \<and> (valid_entity r e \<longrightarrow>
            length (free_entity_ids r) < free_entity_ids_capacity r
            \<and> (\<exists>r'. destroy_entity p r e = Inr r'
                  \<and> free_entity_ids r' = free_entity_ids r @ [e]
                  \<and> free_entity_ids_capacity r' = free_entity_ids_capacity r))"
proof -
  note inv = reachable_inv[OF assms]
  then have "length (free_entity_ids r) + length (dense (entity_ids r)) \<le> free_entity_ids_capacity r"
    by (simp add: registry_inv_def entities_inv_def)
  then have 1: "entity_count r \<le> free_entity_ids_capacity r"
    and 2: "length (free_entity_ids r) + entity_count r \<le> free_entity_ids_capacity r"
    by (simp_all add: entity_count_def sparse_set_size_def)
  have 3: "length (free_entity_ids r) < free_entity_ids_capacity r
            \<and> (\<exists>r'. destroy_entity p r e = Inr r'
                  \<and> free_entity_ids r' = free_entity_ids r @ [e]
                  \<and> free_entity_ids_capacity r' = free_entity_ids_capacity r)"
    if v: "valid_entity r e"
    using destroy_entity_inv[OF inv v, of p] by auto
  from 1 2 3 show ?thesis by blast
qed

lemma reachable_first:
  "reachable lp64 \<lparr>last_entity_id = 1, free_entity_ids = [], free_entity_ids_capacity = Suc 0,
              entity_ids = \<lparr>dense = [1], sparse = [0, 0]\<rparr>, storages = sparse_map_empty\<rparr>"
  by (rule reachable_step[OF reachable_empty, where x = Create_entity]) (simp_all add: create_entity_first)

lemma entity_id_index_1: "entity_id_index 1 = 1"
  by (simp add: entity_id_index_def entity_id_masks_numeral)

theorem free_list_capacity_covers_live_witness:
  "reachable lp64 \<lparr>last_entity_id = 1, free_entity_ids = [], free_entity_ids_capacity = 1,
              entity_ids = \<lparr>dense = [1], sparse = [0, 0]\<rparr>,
              storages = (sparse_map_empty :: (family_id, unit component_storage) sparse_map)\<rparr>
   \<and> platform_ok lp64
   \<and> valid_entity \<lparr>last_entity_id = 1, free_entity_ids = [], free_entity_ids_capacity = 1,
              entity_ids = \<lparr>dense = [1], sparse = [0, 0]\<rparr>,
              storages = (sparse_map_empty :: (family_id, unit component_storage) sparse_map)\<rparr> 1
   \<and> destroy_entity lp64 \<lparr>last_entity_id = 1, free_entity_ids = [], free_entity_ids_capacity = 1,
              entity_ids = \<lparr>dense = [1], sparse = [0, 0]\<rparr>,
              storages = (sparse_map_empty :: (family_id, unit component_storage) sparse_map)\<rparr> 1
       = Inr \<lparr>last_entity_id = 1, free_entity_ids = [1], free_entity_ids_capacity = 1,
              entity_ids = \<lparr>dense = [], sparse = [0, 0]\<rparr>, storages = sparse_map_empty\<rparr>"
proof -
  let ?r = "\<lparr>last_entity_id = 1, free_entity_ids = [], free_entity_ids_capacity = Suc 0,
              entity_ids = \<lparr>dense = [1], sparse = [0, 0]\<rparr>,
              storages = (sparse_map_empty :: (family_id, unit component_storage) sparse_map)\<rparr>"
  have v: "valid_entity ?r 1"
    by (simp add: valid_entity_def sparse_set_has_def entity_id_indexer_of_index[OF entity_id_index_1])
  from free_list_capacity_covers_live [OF reachable_first platform_ok_lp64, of 1] v
  have "\<exists>r'. destroy_entity lp64 ?r 1 = Inr r'" by blast
  with v reachable_first platform_ok_lp64 destroy_entity_single[OF entity_id_index_1]
  show ?thesis by simp
qed

text \<open>
  Claim C4, as amended. When a valid entity \<open>e\<close> of a reachable registry is destroyed,
  \<open>valid_entity e\<close> is false. The next \<open>create_entity\<close> reissues the slot: the new id
  is \<open>upgrade_entity_id e\<close>, with the index of \<open>e\<close> and the version of \<open>e\<close> plus one
  modulo \<open>2^10\<close>; it differs from \<open>e\<close> and is valid, while \<open>e\<close> stays invalid. After any
  run of operations that reissues the slot fewer than \<open>2^10\<close> times \<open>e\<close> is still
  invalid.
\<close>

theorem destroyed_entity_stays_invalid:
  assumes "reachable p r" and "platform_ok p" and "valid_entity r e"
    and "destroy_entity p r e = Inr r1"
  shows "\<not> valid_entity r1 e
       \<and> (create_entity p r1 = (Inr e', r2) \<longrightarrow>
            e' = upgrade_entity_id e
            \<and> entity_id_index e' = entity_id_index e
            \<and> entity_id_version e' = (entity_id_version e + 1) AND entity_id_version_mask
            \<and> e' \<noteq> e \<and> valid_entity r2 e' \<and> \<not> valid_entity r2 e)
       \<and> (registry_run p r1 ops = Inr r3 \<longrightarrow>
            slot_issues p r1 ops (entity_id_index e) < 2 ^ 10 \<longrightarrow> \<not> valid_entity r3 e)"
proof -
  note inv = reachable_inv[OF assms(1,2)]
  from destroy_entity_inv[OF inv assms(3), of p] assms(4) obtain m ids where
    r1: "r1 = r\<lparr>storages := m, entity_ids := ids, free_entity_ids := free_entity_ids r @ [e]\<rparr>"
    and ds: "set (dense ids) = set (dense (entity_ids r)) - {e}"
    and inv1: "registry_inv r1" by auto
  from inv1 have ei1: "entities_inv r1" by (simp add: registry_inv_def)
  have s0: "slot_state r1 e 0"
    unfolding slot_state_def
    by (intro bexI[of _ e]) (simp_all add: r1 ds entity_id_version_masked)
  have 1: "\<not> valid_entity r1 e" by (rule slot_state_invalid[OF ei1 s0]) simp
  have 2: "e' = upgrade_entity_id e
            \<and> entity_id_index e' = entity_id_index e
            \<and> entity_id_version e' = (entity_id_version e + 1) AND entity_id_version_mask
            \<and> e' \<noteq> e \<and> valid_entity r2 e' \<and> \<not> valid_entity r2 e"
    if c: "create_entity p r1 = (Inr e', r2)"
  proof -
    from create_entity_cases[OF inv1 assms(2)] c
    have inv2: "registry_inv r2" and d2: "dense (entity_ids r2) = dense (entity_ids r1) @ [e']"
      and e': "e' = upgrade_entity_id e" by (auto simp: r1)
    from inv2 have ei2: "entities_inv r2" by (simp add: registry_inv_def)
    have v: "valid_entity r2 e'" using ei2 d2 by (simp add: valid_entity_iff)
    from slot_state_create[OF inv1 assms(2) s0 c] have "slot_state r2 e 1"
      by (simp add: e' upgrade_entity_id_index)
    from slot_state_invalid[OF ei2 this] have "\<not> valid_entity r2 e" by simp
    with v e' show ?thesis
      by (simp add: upgrade_entity_id_index entity_id_version_upgrade upgrade_entity_id_neq)
  qed
  have 3: "\<not> valid_entity r3 e"
    if run: "registry_run p r1 ops = Inr r3"
      and k: "slot_issues p r1 ops (entity_id_index e) < 2 ^ 10"
  proof -
    from slot_state_run[OF inv1 assms(2) s0 run]
    have "slot_state r3 e (slot_issues p r1 ops (entity_id_index e))" and "registry_inv r3"
      by simp_all
    then show ?thesis using k by (intro slot_state_invalid) (simp_all add: registry_inv_def)
  qed
  from 1 2 3 show ?thesis by blast
qed

theorem destroyed_entity_stays_invalid_witness:
  "reachable lp64 \<lparr>last_entity_id = 1, free_entity_ids = [], free_entity_ids_capacity = 1,
              entity_ids = \<lparr>dense = [1], sparse = [0, 0]\<rparr>,
              storages = (sparse_map_empty :: (family_id, unit component_storage) sparse_map)\<rparr>
   \<and> platform_ok lp64
   \<and> valid_entity \<lparr>last_entity_id = 1, free_entity_ids = [], free_entity_ids_capacity = 1,
              entity_ids = \<lparr>dense = [1], sparse = [0, 0]\<rparr>,
              storages = (sparse_map_empty :: (family_id, unit component_storage) sparse_map)\<rparr> 1
   \<and> destroy_entity lp64 \<lparr>last_entity_id = 1, free_entity_ids = [], free_entity_ids_capacity = 1,
              entity_ids = \<lparr>dense = [1], sparse = [0, 0]\<rparr>,
              storages = (sparse_map_empty :: (family_id, unit component_storage) sparse_map)\<rparr> 1
       = Inr \<lparr>last_entity_id = 1, free_entity_ids = [1], free_entity_ids_capacity = 1,
              entity_ids = \<lparr>dense = [], sparse = [0, 0]\<rparr>, storages = sparse_map_empty\<rparr>
   \<and> create_entity lp64 \<lparr>last_entity_id = 1, free_entity_ids = [1], free_entity_ids_capacity = 1,
              entity_ids = \<lparr>dense = [], sparse = [0, 0]\<rparr>,
              storages = (sparse_map_empty :: (family_id, unit component_storage) sparse_map)\<rparr>
       = (Inr 4194305,
          \<lparr>last_entity_id = 1, free_entity_ids = [], free_entity_ids_capacity = 1,
              entity_ids = \<lparr>dense = [4194305], sparse = [0, 0]\<rparr>, storages = sparse_map_empty\<rparr>)
   \<and> \<not> valid_entity \<lparr>last_entity_id = 1, free_entity_ids = [], free_entity_ids_capacity = 1,
              entity_ids = \<lparr>dense = [4194305], sparse = [0, 0]\<rparr>,
              storages = (sparse_map_empty :: (family_id, unit component_storage) sparse_map)\<rparr> 1"
proof -
  let ?r = "\<lparr>last_entity_id = 1, free_entity_ids = [], free_entity_ids_capacity = Suc 0,
              entity_ids = \<lparr>dense = [1], sparse = [0, 0]\<rparr>,
              storages = (sparse_map_empty :: (family_id, unit component_storage) sparse_map)\<rparr>"
  have v: "valid_entity ?r 1"
    by (simp add: valid_entity_def sparse_set_has_def entity_id_indexer_of_index[OF entity_id_index_1])
  have u: "upgrade_entity_id 1 = 4194305"
    by (simp add: upgrade_entity_id_def entity_id_join_def entity_id_index_1
        entity_id_version_def entity_id_index_bits_def)
  note d = destroy_entity_single[OF entity_id_index_1]
  note c = create_entity_single[OF entity_id_index_1, unfolded u]
  from destroyed_entity_stays_invalid [OF reachable_first platform_ok_lp64 v d,
      where e' = 4194305 and ops = "[]"] c
  have "\<not> valid_entity \<lparr>last_entity_id = 1, free_entity_ids = [], free_entity_ids_capacity = Suc 0,
              entity_ids = \<lparr>dense = [4194305], sparse = [0, 0]\<rparr>,
              storages = (sparse_map_empty :: (family_id, unit component_storage) sparse_map)\<rparr> 1"
    by blast
  with v reachable_first platform_ok_lp64 d c show ?thesis by simp
qed

text \<open>
  The claim as stated, that the stale id never matches a later live id of its slot, fails
  where the version wraps: create an entity (id \<open>1\<close>), then destroy the live entity and
  create one again \<open>2^10\<close> times. Every round reissues the slot, the version is back at
  \<open>0\<close>, and the id \<open>1\<close>, destroyed in the first round, is valid again.
\<close>

theorem version_wrap_revalidates_counterexample:
  "registry_run lp64 (registry_empty :: unit registry) (Create_entity # recycle_ops 1 1024)
     = Inr \<lparr>last_entity_id = 1, free_entity_ids = [], free_entity_ids_capacity = 1,
            entity_ids = \<lparr>dense = [1], sparse = [0, 0]\<rparr>, storages = sparse_map_empty\<rparr>
   \<and> valid_entity \<lparr>last_entity_id = 1, free_entity_ids = [], free_entity_ids_capacity = 1,
            entity_ids = \<lparr>dense = [1], sparse = [0, 0]\<rparr>,
            storages = (sparse_map_empty :: (family_id, unit component_storage) sparse_map)\<rparr> 1
   \<and> hd (recycle_ops 1 1024 :: unit registry_op list) = Destroy_entity 1"
proof -
  have v: "valid_entity \<lparr>last_entity_id = 1, free_entity_ids = [], free_entity_ids_capacity = Suc 0,
            entity_ids = \<lparr>dense = [1], sparse = [0, 0]\<rparr>,
            storages = (sparse_map_empty :: (family_id, unit component_storage) sparse_map)\<rparr> 1"
    by (simp add: valid_entity_def sparse_set_has_def entity_id_indexer_of_index[OF entity_id_index_1])
  have h: "hd (recycle_ops 1 1024 :: unit registry_op list) = Destroy_entity 1"
    by (simp add: numeral_eq_Suc)
  have "registry_run lp64 (registry_empty :: unit registry) (Create_entity # recycle_ops 1 1024)
     = Inr \<lparr>last_entity_id = 1, free_entity_ids = [], free_entity_ids_capacity = Suc 0,
            entity_ids = \<lparr>dense = [1], sparse = [0, 0]\<rparr>, storages = sparse_map_empty\<rparr>"
    by (simp add: create_entity_first recycle_run[OF entity_id_index_1] upgrade_1024_times)
  with v h show ?thesis by simp
qed

section \<open>Dispatch of events\<close>


lemma fire_event_append:
  "fire_event (xs @ ys) ev s = fire_event ys ev (fire_event xs ev s)"
  by (induction xs arbitrary: s) (simp_all split: option.splits)



lemma registry_run_reachable:
  "reachable p r \<Longrightarrow> registry_run p r ops = Inr r' \<Longrightarrow> reachable p r'"
proof (induction ops arbitrary: r)
  case Nil
  then show ?case by simp
next
  case (Cons x xs)
  from Cons.prems(2) have pre: "op_precondition r x" by (simp split: if_splits)
  with Cons.prems(2) obtain r1 where s: "registry_step p r x = Inr r1"
    and run: "registry_run p r1 xs = Inr r'"
    by (cases "registry_step p r x") simp_all
  from reachable_step[OF Cons.prems(1) pre s] run show ?case by (rule Cons.IH)
qed

section \<open>Lookup of components\<close>

lemma component_at_invalid:
  assumes inv: "registry_inv r" and nv: "\<not> valid_entity r e"
  shows "component_at r t e = None"
proof (cases "find_storage r t")
  case None
  then show ?thesis by (simp add: component_at_def)
next
  case (Some i)
  from inv have si: "storages_inv r" and ei: "entities_inv r" by (simp_all add: registry_inv_def)
  from si have wf: "sm_wf sparse_indexer (storages r)" by (simp add: storages_inv_def)
  from Some find_storage_Some[OF wf] have i: "i < length (vals (storages r))" by simp
  note st = storages_inv_storage_at[OF si i]
  from nv ei have "e \<notin> set (dense (entity_ids r))" by (simp add: valid_entity_iff)
  with st(2) have "e \<notin> set (dense (keys (storage_at r i)))" by blast
  with st(1) have "storage_find (storage_at r i) e = None" by (simp add: storage_find_None)
  with Some show ?thesis by (simp add: component_at_def)
qed

lemma exists_component_eq:
  assumes inv: "registry_inv r"
  shows "exists_component p r t e =
     (if assertions p \<and> \<not> valid_entity r e then Inl Assertion_failed
      else Inr (component_at r t e \<noteq> None))"
proof (cases "find_storage r t")
  case None
  then show ?thesis by (simp add: exists_component_def component_at_def)
next
  case (Some i)
  from inv have si: "storages_inv r" by (simp add: registry_inv_def)
  from si have wf: "sm_wf sparse_indexer (storages r)" by (simp add: storages_inv_def)
  from Some find_storage_Some[OF wf] have i: "i < length (vals (storages r))" by simp
  note st = storages_inv_storage_at[OF si i]
  from st(1) have "storage_exists (storage_at r i) e \<longleftrightarrow> storage_find (storage_at r i) e \<noteq> None"
    by (simp add: storage_exists_iff storage_find_None)
  with Some show ?thesis by (simp add: exists_component_def component_at_def)
qed

lemma find_component_eq:
  "find_component p r t e =
     (if assertions p \<and> \<not> valid_entity r e then Inl Assertion_failed
      else Inr (component_at r t e))"
  by (simp add: find_component_def component_at_def split: option.splits)

section \<open>Iteration over entities\<close>

lemma conj_fold_total: "(\<And>x. \<not> isl (f x)) \<Longrightarrow> \<not> isl (conj_fold f xs)"
proof (induction xs)
  case Nil
  show ?case by simp
next
  case (Cons x xs)
  from Cons.prems[of x] Cons.IH[OF Cons.prems] show ?case by (cases "f x") simp_all
qed

lemma disj_fold_total: "(\<And>x. \<not> isl (f x)) \<Longrightarrow> \<not> isl (disj_fold f xs)"
proof (induction xs)
  case Nil
  show ?case by simp
next
  case (Cons x xs)
  from Cons.prems[of x] Cons.IH[OF Cons.prems] show ?case by (cases "f x") simp_all
qed

lemma exists_component_valid: "valid_entity r e \<Longrightarrow> \<not> isl (exists_component p r t e)"
  by (simp add: exists_component_def split: option.splits)

lemma option_eval_total:
  shows "valid_entity r e \<Longrightarrow> \<not> isl (option_eval p r e opt)"
    and "valid_entity r e \<Longrightarrow> \<not> isl (option_conj_eval p r e opts)"
    and "valid_entity r e \<Longrightarrow> \<not> isl (option_disj_eval p r e opts')"
  by (induction p r e opt and p r e opts and p r e opts'
      rule: option_eval_option_conj_eval_option_disj_eval.induct)
     (auto simp: exists_component_valid conj_fold_total disj_fold_total split: sum.splits)

lemma for_each_entity_loop_fold:
  assumes "\<forall>e \<in> set es. valid_entity r e"
  shows "for_each_entity_loop p r f opts es acc =
     Inr (fold f (filter (\<lambda>e. option_conj_eval p r e opts = Inr True) es) acc)"
  using assms
proof (induction es arbitrary: acc)
  case Nil
  show ?case by simp
next
  case (Cons e es)
  from Cons.prems have "valid_entity r e" by simp
  from option_eval_total(2)[OF this, of p opts]
  obtain b where b: "option_conj_eval p r e opts = Inr b" by (cases "option_conj_eval p r e opts") auto
  from Cons.prems have "\<forall>e \<in> set es. valid_entity r e" by simp
  from Cons.IH[OF this] b show ?case by simp
qed

lemma for_each_entity_fold:
  assumes inv: "registry_inv r"
  shows "for_each_entity p r f opts acc =
     Inr (fold f (filter (\<lambda>e. option_conj_eval p r e opts = Inr True) (dense (entity_ids r))) acc)"
proof -
  from inv have "entities_inv r" by (simp add: registry_inv_def)
  then have "\<forall>e \<in> set (dense (entity_ids r)). valid_entity r e" by (simp add: valid_entity_iff)
  then show ?thesis unfolding for_each_entity_def by (rule for_each_entity_loop_fold)
qed

text \<open>
  Claim C10. \<open>for_joined_components\<close> with no component types is \<open>for_each_entity\<close>, the
  functor getting no component values. In a reachable registry the call returns, and
  there is a list of entities, the same for every functor and accumulator, on which the
  functor has been called in turn: it has every live entity that satisfies the
  conjunction of the options, once, and nothing else.
\<close>

theorem for_joined_components_no_types:
  fixes r :: "'v registry"
  assumes "reachable p r" and "platform_ok p"
  shows "(\<forall>(f :: entity_id \<Rightarrow> 'v list \<Rightarrow> 'a \<Rightarrow> 'a) acc.
            for_joined_components p r [] f opts acc
              = for_each_entity p r (\<lambda>e. f e []) opts acc)
       \<and> (\<exists>es. (\<forall>(f :: entity_id \<Rightarrow> 'v list \<Rightarrow> 'a \<Rightarrow> 'a) acc.
                    for_joined_components p r [] f opts acc
                           = Inr (fold (\<lambda>e. f e []) es acc))
              \<and> distinct es
              \<and> set es = {e. valid_entity r e \<and> option_conj_eval p r e opts = Inr True})"
proof -
  note inv = reachable_inv[OF assms]
  then have ei: "entities_inv r" by (simp add: registry_inv_def)
  let ?es = "filter (\<lambda>e. option_conj_eval p r e opts = Inr True) (dense (entity_ids r))"
  have 1: "for_joined_components p r [] f acc' opts' = for_each_entity p r (\<lambda>e. f e []) acc' opts'"
    for f :: "entity_id \<Rightarrow> 'v list \<Rightarrow> 'a \<Rightarrow> 'a" and acc' opts'
    by (simp add: for_joined_components_def)
  have 2: "for_joined_components p r [] f opts acc = Inr (fold (\<lambda>e. f e []) ?es acc)"
    for f :: "entity_id \<Rightarrow> 'v list \<Rightarrow> 'a \<Rightarrow> 'a" and acc
    by (simp add: 1 for_each_entity_fold[OF inv])
  from ei have "ss_wf entity_id_indexer (entity_ids r)" by (simp add: entities_inv_def)
  then have "distinct (dense (entity_ids r))" by (rule ss_wf_distinct)
  then have 3: "distinct ?es" by simp
  have 4: "set ?es = {e. valid_entity r e \<and> option_conj_eval p r e opts = Inr True}"
    using ei by (auto simp: valid_entity_iff)
  from 1 2 3 4 show ?thesis by blast
qed

theorem for_joined_components_no_types_witness:
  "reachable lp64 \<lparr>last_entity_id = 1, free_entity_ids = [], free_entity_ids_capacity = 1,
              entity_ids = \<lparr>dense = [1], sparse = [0, 0]\<rparr>,
              storages = (sparse_map_empty :: (family_id, unit component_storage) sparse_map)\<rparr>
   \<and> platform_ok lp64
   \<and> for_joined_components lp64 \<lparr>last_entity_id = 1, free_entity_ids = [], free_entity_ids_capacity = 1,
              entity_ids = \<lparr>dense = [1], sparse = [0, 0]\<rparr>,
              storages = (sparse_map_empty :: (family_id, unit component_storage) sparse_map)\<rparr>
        [] record_call [Option_neg (Exists 0)] [] = Inr [(1, [])]
   \<and> for_each_entity lp64 \<lparr>last_entity_id = 1, free_entity_ids = [], free_entity_ids_capacity = 1,
              entity_ids = \<lparr>dense = [1], sparse = [0, 0]\<rparr>,
              storages = (sparse_map_empty :: (family_id, unit component_storage) sparse_map)\<rparr>
        (\<lambda>e. record_call e ([] :: unit list)) [Option_neg (Exists 0)] [] = Inr [(1, [])]"
proof -
  let ?r = "\<lparr>last_entity_id = 1, free_entity_ids = [], free_entity_ids_capacity = Suc 0,
              entity_ids = \<lparr>dense = [1], sparse = [0, 0]\<rparr>,
              storages = (sparse_map_empty :: (family_id, unit component_storage) sparse_map)\<rparr>"
  have v: "valid_entity ?r e \<longleftrightarrow> e = 1" for e
    by (auto simp: valid_entity_def sparse_set_has_def Let_def less_Suc_eq
        entity_id_indexer_of_index[OF entity_id_index_1])
  have fs: "find_storage ?r 0 = None"
    by (simp add: find_storage_def sparse_map_empty_def sparse_set_empty_def
        sparse_set_find_dense_index_def sparse_set_has_def)
  have o: "option_conj_eval lp64 ?r e [Option_neg (Exists 0)] = Inr True \<longleftrightarrow> e = 1" for e
    by (simp add: exists_component_def v fs lp64_def)
  from for_joined_components_no_types [OF reachable_first platform_ok_lp64,
      of "[Option_neg (Exists 0)]", where ?'a = "(entity_id \<times> unit list) list"]
  obtain es where
    eq: "\<And>(f :: entity_id \<Rightarrow> unit list \<Rightarrow> (entity_id \<times> unit list) list \<Rightarrow> (entity_id \<times> unit list) list) acc.
         for_joined_components lp64 ?r [] f [Option_neg (Exists 0)] acc
         = for_each_entity lp64 ?r (\<lambda>e. f e []) [Option_neg (Exists 0)] acc"
    and fo: "\<And>(f :: entity_id \<Rightarrow> unit list \<Rightarrow> (entity_id \<times> unit list) list \<Rightarrow> (entity_id \<times> unit list) list) acc.
         for_joined_components lp64 ?r [] f [Option_neg (Exists 0)] acc
         = Inr (fold (\<lambda>e. f e []) es acc)"
    and d: "distinct es"
    and s: "set es = {e. valid_entity ?r e \<and> option_conj_eval lp64 ?r e [Option_neg (Exists 0)] = Inr True}"
    by blast
  from s have "set es = {e. e = 1 \<and> e = 1}" by (simp only: v o)
  then have s1: "set es = {1}" by simp
  from distinct_card[OF d] s1 have "length es = 1" by simp
  then obtain a where "es = [a]" by (cases es) auto
  with s1 have es: "es = [1]" by simp
  have a: "for_joined_components lp64 ?r [] record_call [Option_neg (Exists 0)] [] = Inr [(1, [])]"
    by (simp add: fo es record_call_def)
  with eq[of record_call "[]"]
  have b: "for_each_entity lp64 ?r (\<lambda>e. record_call e ([] :: unit list)) [Option_neg (Exists 0)] []
      = Inr [(1, [])]" by simp
  from a b reachable_first platform_ok_lp64 show ?thesis by simp
qed

section \<open>Joined iteration\<close>

lemma acquire_simps:
  "acquire [] i = Inr ()"
  "i \<in> set held \<Longrightarrow> acquire held i = Inl Deadlock"
  "i \<notin> set held \<Longrightarrow> acquire held i = Inr ()"
  by (simp_all add: acquire_def)











lemma sparse_map_get_find:
  "sparse_map_get ix m k = (case sparse_map_find ix m k of Some v \<Rightarrow> Inr v | None \<Rightarrow> Inl Logic_error)"
  by (simp add: sparse_map_get_def sparse_map_find_def sparse_set_get_dense_index_def
      split: option.splits)



lemma component_at_find_storage:
  "find_storage r t = Some i \<Longrightarrow> component_at r t e = storage_find (storage_at r i) e"
  by (simp add: component_at_def)

lemma storage_keys_component_at:
  assumes inv: "registry_inv r" and fs: "find_storage r t = Some i"
  shows "e \<in> set (dense (keys (storage_at r i))) \<longleftrightarrow> component_at r t e \<noteq> None"
    and "set (dense (keys (storage_at r i))) \<subseteq> set (dense (entity_ids r))"
    and "sm_wf entity_id_indexer (storage_at r i)"
proof -
  from inv have si: "storages_inv r" by (simp add: registry_inv_def)
  from si have wf: "sm_wf sparse_indexer (storages r)" by (simp add: storages_inv_def)
  from fs find_storage_Some[OF wf] have i: "i < length (vals (storages r))" by simp
  note st = storages_inv_storage_at[OF si i]
  show "e \<in> set (dense (keys (storage_at r i))) \<longleftrightarrow> component_at r t e \<noteq> None"
    using storage_find_None[OF st(1), of e] by (simp add: component_at_find_storage[OF fs])
  show "set (dense (keys (storage_at r i))) \<subseteq> set (dense (entity_ids r))" by (rule st(2))
  show "sm_wf entity_id_indexer (storage_at r i)" by (rule st(1))
qed












lemma example_create_2:
  "create_entity lp64
       \<lparr>last_entity_id = 1, free_entity_ids = [], free_entity_ids_capacity = Suc 0,
        entity_ids = \<lparr>dense = [1], sparse = [0, 0]\<rparr>,
        storages = (sparse_map_empty :: (family_id, nat component_storage) sparse_map)\<rparr>
     = (Inr 2,
        \<lparr>last_entity_id = 2, free_entity_ids = [], free_entity_ids_capacity = 2,
         entity_ids = \<lparr>dense = [1, 2], sparse = [0, 0, 1, 0]\<rparr>, storages = sparse_map_empty\<rparr>)"
proof -
  have ins: "sparse_set_insert entity_id_indexer 1152921504606846975 \<lparr>dense = [1], sparse = [0, 0]\<rparr> 2
      = Inr (True, \<lparr>dense = [1, 2], sparse = [0, 0, 1, 0]\<rparr>)"
    by (simp add: sparse_set_insert_def sparse_set_has_def next_capacity_size_def
        vector_resize_def Let_def entity_id_indexer_2 replicate_numeral_unfold)
  have le: "\<not> (4194303 :: 32 word) \<le> 1" by (simp add: word_le_nat_alt)
  show ?thesis
    by (simp add: create_entity_def lp64_def entity_id_masks_numeral
        sparse_set_size_def next_capacity_size_def vector_reserve_def ins le)
qed

lemma sparse_indexer_examples:
  "sparse_indexer (0 :: family_id) = 0" "sparse_indexer (1 :: family_id) = 1"
  by (simp_all add: sparse_indexer_def)

lemma example_assign_1:
  "assign_component lp64
       \<lparr>last_entity_id = 2, free_entity_ids = [], free_entity_ids_capacity = 2,
        entity_ids = \<lparr>dense = [1, 2], sparse = [0, 0, 1, 0]\<rparr>, storages = sparse_map_empty\<rparr>
       0 1 (5 :: nat)
     = Inr \<lparr>last_entity_id = 2, free_entity_ids = [], free_entity_ids_capacity = 2,
        entity_ids = \<lparr>dense = [1, 2], sparse = [0, 0, 1, 0]\<rparr>,
        storages = \<lparr>keys = \<lparr>dense = [0], sparse = [0]\<rparr>,
                    vals = [\<lparr>keys = \<lparr>dense = [1], sparse = [0, 0]\<rparr>, vals = [5]\<rparr>]\<rparr>\<rparr>"
  by (simp add: assign_component_def valid_entity_def sparse_set_has_def lp64_def
      get_or_create_storage_def find_storage_def sparse_set_find_dense_index_def
      sparse_set_get_dense_index_def sparse_map_insert_def sparse_set_insert_def
      sparse_map_empty_def sparse_set_empty_def next_capacity_size_def vector_resize_def
      storage_assign_def storage_at_def set_storage_at_def Let_def
      entity_id_indexer_examples entity_id_indexer_2 sparse_indexer_examples)

lemma example_assign_2:
  "assign_component lp64
       \<lparr>last_entity_id = 2, free_entity_ids = [], free_entity_ids_capacity = 2,
        entity_ids = \<lparr>dense = [1, 2], sparse = [0, 0, 1, 0]\<rparr>,
        storages = \<lparr>keys = \<lparr>dense = [0], sparse = [0]\<rparr>,
                    vals = [\<lparr>keys = \<lparr>dense = [1], sparse = [0, 0]\<rparr>, vals = [5]\<rparr>]\<rparr>\<rparr>
       1 1 (7 :: nat)
     = Inr \<lparr>last_entity_id = 2, free_entity_ids = [], free_entity_ids_capacity = 2,
        entity_ids = \<lparr>dense = [1, 2], sparse = [0, 0, 1, 0]\<rparr>,
        storages = \<lparr>keys = \<lparr>dense = [0, 1], sparse = [0, 1]\<rparr>,
                    vals = [\<lparr>keys = \<lparr>dense = [1], sparse = [0, 0]\<rparr>, vals = [5]\<rparr>,
                            \<lparr>keys = \<lparr>dense = [1], sparse = [0, 0]\<rparr>, vals = [7]\<rparr>]\<rparr>\<rparr>"
  by (simp add: assign_component_def valid_entity_def sparse_set_has_def lp64_def
      get_or_create_storage_def find_storage_def sparse_set_find_dense_index_def
      sparse_set_get_dense_index_def sparse_map_insert_def sparse_set_insert_def
      sparse_map_empty_def sparse_set_empty_def next_capacity_size_def vector_resize_def
      storage_assign_def storage_at_def set_storage_at_def Let_def
      entity_id_indexer_examples entity_id_indexer_2 sparse_indexer_examples)

lemma example_assign_3:
  "assign_component lp64
       \<lparr>last_entity_id = 2, free_entity_ids = [], free_entity_ids_capacity = 2,
        entity_ids = \<lparr>dense = [1, 2], sparse = [0, 0, 1, 0]\<rparr>,
        storages = \<lparr>keys = \<lparr>dense = [0, 1], sparse = [0, 1]\<rparr>,
                    vals = [\<lparr>keys = \<lparr>dense = [1], sparse = [0, 0]\<rparr>, vals = [5]\<rparr>,
                            \<lparr>keys = \<lparr>dense = [1], sparse = [0, 0]\<rparr>, vals = [7]\<rparr>]\<rparr>\<rparr>
       0 2 (6 :: nat)
     = Inr example_registry"
  by (simp add: assign_component_def valid_entity_def sparse_set_has_def lp64_def
      get_or_create_storage_def find_storage_def sparse_set_find_dense_index_def
      sparse_set_get_dense_index_def sparse_map_insert_def sparse_set_insert_def
      sparse_map_empty_def sparse_set_empty_def next_capacity_size_def vector_resize_def
      storage_assign_def storage_at_def set_storage_at_def Let_def example_registry_def
      entity_id_indexer_examples entity_id_indexer_2 sparse_indexer_examples
      replicate_numeral_unfold)


lemma example_run: "registry_run lp64 registry_empty example_ops = Inr example_registry"
proof -
  have v1: "valid_entity
       \<lparr>last_entity_id = 2, free_entity_ids = [], free_entity_ids_capacity = 2,
        entity_ids = \<lparr>dense = [1, 2], sparse = [0, 0, 1, 0]\<rparr>, storages = m\<rparr> 1"
    and v2: "valid_entity
       \<lparr>last_entity_id = 2, free_entity_ids = [], free_entity_ids_capacity = 2,
        entity_ids = \<lparr>dense = [1, 2], sparse = [0, 0, 1, 0]\<rparr>, storages = m\<rparr> 2"
    for m :: "(family_id, nat component_storage) sparse_map"
    by (simp_all add: valid_entity_def sparse_set_has_def entity_id_indexer_examples
        entity_id_indexer_2)
  show ?thesis
    unfolding example_ops_def
    by (simp only: registry_run.simps registry_step.simps op_precondition.simps
        create_entity_first[unfolded One_nat_def] example_create_2 example_assign_1
        example_assign_2 example_assign_3 v1 v2 sum.case prod.case not_True_eq_False if_False
        simp_thms)
qed

lemma example_reachable: "reachable lp64 example_registry"
  by (rule registry_run_reachable[OF reachable_empty example_run])

lemma example_find_storage:
  "find_storage example_registry 0 = Some 0"
  "find_storage example_registry 1 = Some 1"
  "find_storage example_registry 2 = None"
  by (simp_all add: find_storage_def example_registry_def sparse_set_find_dense_index_def
      sparse_set_has_def sparse_indexer_def)

lemma example_component_at:
  "component_at example_registry 0 e = (if e = 1 then Some 5 else if e = 2 then Some 6 else None)"
  "component_at example_registry 1 e = (if e = 1 then Some 7 else None)"
  "component_at example_registry 2 e = None"
proof -
  note inv = reachable_inv[OF example_reachable platform_ok_lp64]
  note s0 = storage_keys_component_at(3)[OF inv example_find_storage(1)]
  note s1 = storage_keys_component_at(3)[OF inv example_find_storage(2)]
  have 0: "component_at example_registry 0 e = Some v \<longleftrightarrow> (e, v) \<in> {(1, 5), (2, 6)}" for v
    using sm_wf_find_iff[OF s0, of e v]
    by (simp add: component_at_find_storage[OF example_find_storage(1)] storage_find_def)
       (simp add: storage_at_def example_registry_def)
  have 1: "component_at example_registry 1 e = Some v \<longleftrightarrow> (e, v) \<in> {(1, 7)}" for v
    using sm_wf_find_iff[OF s1, of e v]
    by (simp add: component_at_find_storage[OF example_find_storage(2)] storage_find_def)
       (simp add: storage_at_def example_registry_def)
  show "component_at example_registry 0 e = (if e = 1 then Some 5 else if e = 2 then Some 6 else None)"
    using 0 by (cases "component_at example_registry 0 e") (auto split: if_splits)
  show "component_at example_registry 1 e = (if e = 1 then Some 7 else None)"
    using 1 by (cases "component_at example_registry 1 e") (auto split: if_splits)
  show "component_at example_registry 2 e = None"
    by (simp add: component_at_def example_find_storage)
qed










section \<open>Prototypes\<close>

lemma applier_apply_to_entity_inv:
  assumes re: "reachable p r" and ok: "platform_ok p" and valid: "valid_entity r e"
  shows "\<exists>m. applier_apply_to_entity p r t v e override = Inr (r\<lparr>storages := m\<rparr>)
      \<and> reachable p (r\<lparr>storages := m\<rparr>)
      \<and> (\<forall>t' e'. component_at (r\<lparr>storages := m\<rparr>) t' e' =
            (if t' = t \<and> e' = e
             then (if override then Some v
                   else (case component_at r t e of Some c \<Rightarrow> Some c | None \<Rightarrow> Some v))
             else component_at r t' e'))"
proof -
  note inv = reachable_inv[OF re ok]
  have ex: "exists_component p r t e = Inr (component_at r t e \<noteq> None)"
    using valid by (simp add: exists_component_eq[OF inv])
  show ?thesis
  proof (cases "override \<or> component_at r t e = None")
    case True
    from assign_component_inv[OF inv valid ok, of t v] obtain m where
      a: "assign_component p r t e v = Inr (r\<lparr>storages := m\<rparr>)"
      and c: "\<forall>f' e'. component_at (r\<lparr>storages := m\<rparr>) f' e' =
            (if f' = t \<and> e' = e then Some v else component_at r f' e')" by blast
    have "reachable p (r\<lparr>storages := m\<rparr>)"
      by (rule reachable_step[OF re, where x = "Assign_component t e v"]) (simp_all add: valid a)
    moreover have "applier_apply_to_entity p r t v e override = Inr (r\<lparr>storages := m\<rparr>)"
      using True a by (auto simp: applier_apply_to_entity_def ex)
    ultimately show ?thesis using True c by (intro exI[of _ m]) auto
  next
    case False
    then obtain c where c: "component_at r t e = Some c" and no: "\<not> override" by auto
    have "applier_apply_to_entity p r t v e override = Inr (r\<lparr>storages := storages r\<rparr>)"
      using c no by (simp add: applier_apply_to_entity_def ex)
    then show ?thesis using re c no by (intro exI[of _ "storages r"]) auto
  qed
qed

lemma prototype_apply_loop_inv:
  assumes ok: "platform_ok p" and wf: "sm_wf sparse_indexer proto"
  shows "reachable p r \<Longrightarrow> valid_entity r e \<Longrightarrow> distinct ts
     \<Longrightarrow> set ts \<subseteq> set (dense (keys proto))
     \<Longrightarrow> \<exists>m. prototype_apply_loop p proto e override ts r = Inr (r\<lparr>storages := m\<rparr>)
          \<and> reachable p (r\<lparr>storages := m\<rparr>)
          \<and> (\<forall>t e'. component_at (r\<lparr>storages := m\<rparr>) t e' =
                (if e' = e \<and> t \<in> set ts
                 then (if override then sparse_map_find sparse_indexer proto t
                       else (case component_at r t e of
                               Some c \<Rightarrow> Some c
                             | None \<Rightarrow> sparse_map_find sparse_indexer proto t))
                 else component_at r t e'))"
proof (induction ts arbitrary: r)
  case Nil
  have "r\<lparr>storages := storages r\<rparr> = r" by simp
  with Nil.prems(1) show ?case by (intro exI[of _ "storages r"]) simp
next
  case (Cons t ts)
  from Cons.prems have t: "t \<in> set (dense (keys proto))" and nt: "t \<notin> set ts"
    and d: "distinct ts" and sub: "set ts \<subseteq> set (dense (keys proto))" by simp_all
  from t sm_wf_find_None[OF wf, of t] obtain v where v: "sparse_map_find sparse_indexer proto t = Some v"
    by (cases "sparse_map_find sparse_indexer proto t") auto
  then have g: "sparse_map_get sparse_indexer proto t = Inr v" by (simp add: sparse_map_get_find)
  from applier_apply_to_entity_inv[OF Cons.prems(1) ok Cons.prems(2), of t v override]
  obtain m1 where
    a: "applier_apply_to_entity p r t v e override = Inr (r\<lparr>storages := m1\<rparr>)"
    and re1: "reachable p (r\<lparr>storages := m1\<rparr>)"
    and c1: "\<And>t' e'. component_at (r\<lparr>storages := m1\<rparr>) t' e' =
            (if t' = t \<and> e' = e
             then (if override then Some v
                   else (case component_at r t e of Some c \<Rightarrow> Some c | None \<Rightarrow> Some v))
             else component_at r t' e')" by blast
  from Cons.prems(2) have v1: "valid_entity (r\<lparr>storages := m1\<rparr>) e" by simp
  from Cons.IH[OF re1 v1 d sub] obtain m2 where
    l: "prototype_apply_loop p proto e override ts (r\<lparr>storages := m1\<rparr>) = Inr (r\<lparr>storages := m2\<rparr>)"
    and re2: "reachable p (r\<lparr>storages := m2\<rparr>)"
    and c2: "\<And>t' e'. component_at (r\<lparr>storages := m2\<rparr>) t' e' =
                (if e' = e \<and> t' \<in> set ts
                 then (if override then sparse_map_find sparse_indexer proto t'
                       else (case component_at (r\<lparr>storages := m1\<rparr>) t' e of
                               Some c \<Rightarrow> Some c
                             | None \<Rightarrow> sparse_map_find sparse_indexer proto t'))
                 else component_at (r\<lparr>storages := m1\<rparr>) t' e')"
    by auto
  have 1: "prototype_apply_loop p proto e override (t # ts) r = Inr (r\<lparr>storages := m2\<rparr>)"
    by (simp add: g a l)
  have 3: "component_at (r\<lparr>storages := m2\<rparr>) t' e' =
                (if e' = e \<and> t' \<in> set (t # ts)
                 then (if override then sparse_map_find sparse_indexer proto t'
                       else (case component_at r t' e of
                               Some c \<Rightarrow> Some c
                             | None \<Rightarrow> sparse_map_find sparse_indexer proto t'))
                 else component_at r t' e')" for t' e'
    unfolding c2 c1 using nt v by (auto split: option.splits)
  from 1 re2 3 show ?case by blast
qed

lemma find_component_valid:
  "valid_entity r e \<Longrightarrow> find_component p r t e = Inr (component_at r t e)"
  by (simp add: find_component_eq)

text \<open>
  Claim C8. For a prototype and a valid entity \<open>e\<close> of a reachable registry,
  \<open>apply_to_entity\<close> returns, and afterwards: with \<open>override = false\<close> every component
  type that \<open>e\<close> had keeps its value, and a type that \<open>e\<close> did not have gets the value the
  prototype constructs for it when the prototype has an applier for it, and stays absent
  otherwise; with \<open>override = true\<close> every type for which the prototype has an applier has
  the value the prototype constructs, present before or not, and the other types of \<open>e\<close>
  are as they were. The components of other entities do not change, nor does the set of
  entities.
\<close>

theorem prototype_apply_to_entity_override:
  fixes r :: "'v registry"
  assumes "reachable p r" and "platform_ok p" and "valid_entity r e"
    and "sm_wf sparse_indexer proto"
  shows "\<exists>r'. prototype_apply_to_entity p r proto e override = Inr r'
      \<and> reachable p r'
      \<and> entity_ids r' = entity_ids r
      \<and> (\<forall>t. find_component p r' t e =
            Inr (if override
                 then (case sparse_map_find sparse_indexer proto t of
                         Some v \<Rightarrow> Some v
                       | None \<Rightarrow> component_at r t e)
                 else (case component_at r t e of
                         Some c \<Rightarrow> Some c
                       | None \<Rightarrow> sparse_map_find sparse_indexer proto t)))
      \<and> (\<forall>t e'. e' \<noteq> e \<longrightarrow> component_at r' t e' = component_at r t e')"
proof -
  from assms(4) have "ss_wf sparse_indexer (keys proto)" by (simp add: sm_wf_def)
  then have d: "distinct (dense (keys proto))" by (rule ss_wf_distinct)
  from prototype_apply_loop_inv[OF assms(2,4,1,3) d subset_refl, of override]
  obtain m where
    l: "prototype_apply_to_entity p r proto e override = Inr (r\<lparr>storages := m\<rparr>)"
    and re: "reachable p (r\<lparr>storages := m\<rparr>)"
    and c: "\<And>t e'. component_at (r\<lparr>storages := m\<rparr>) t e' =
                (if e' = e \<and> t \<in> set (dense (keys proto))
                 then (if override then sparse_map_find sparse_indexer proto t
                       else (case component_at r t e of
                               Some c \<Rightarrow> Some c
                             | None \<Rightarrow> sparse_map_find sparse_indexer proto t))
                 else component_at r t e')"
    unfolding prototype_apply_to_entity_def by blast
  from assms(3) have v: "valid_entity (r\<lparr>storages := m\<rparr>) e" by simp
  have 4: "find_component p (r\<lparr>storages := m\<rparr>) t e =
            Inr (if override
                 then (case sparse_map_find sparse_indexer proto t of
                         Some v \<Rightarrow> Some v
                       | None \<Rightarrow> component_at r t e)
                 else (case component_at r t e of
                         Some c \<Rightarrow> Some c
                       | None \<Rightarrow> sparse_map_find sparse_indexer proto t))" for t
    unfolding find_component_valid[OF v] c
    using sm_wf_find_None[OF assms(4), of t] by (auto split: option.splits)
  have 5: "e' \<noteq> e \<longrightarrow> component_at (r\<lparr>storages := m\<rparr>) t e' = component_at r t e'" for t e'
    by (simp add: c)
  have 3: "entity_ids (r\<lparr>storages := m\<rparr>) = entity_ids r" by simp
  from l re 3 4 5 show ?thesis by blast
qed

lemma prototype_component_wf:
  assumes wf: "sm_wf sparse_indexer proto" and res: "prototype_component p proto t v = Inr proto'"
  shows "sm_wf sparse_indexer proto'"
    and "sparse_map_find sparse_indexer proto' t' =
           (if t' = t then Some v else sparse_map_find sparse_indexer proto t')"
proof -
  have "sm_wf sparse_indexer proto'
      \<and> sparse_map_find sparse_indexer proto' t' =
           (if t' = t then Some v else sparse_map_find sparse_indexer proto t')"
  proof (cases "sparse_set_find_dense_index sparse_indexer (keys proto) t")
    case (Some i)
    with res have p': "proto' = proto\<lparr>vals := (vals proto)[i := v]\<rparr>"
      by (simp add: prototype_component_def sparse_map_insert_or_assign_def)
    from sm_wf_update[OF wf Some, of v] p' show ?thesis by simp
  next
    case None
    from wf have "ss_wf sparse_indexer (keys proto)" by (simp add: sm_wf_def)
    with None have "t \<notin> set (dense (keys proto))" by (simp add: ss_wf_find_dense_index_None)
    then have fresh: "\<forall>u \<in> set (dense (keys proto)). sparse_indexer u \<noteq> sparse_indexer t"
      by (auto simp: sparse_indexer_def word_unat_eq_iff[symmetric])
    from None res obtain b where
      ins: "sparse_map_insert sparse_indexer (sparse_max_size p) proto t v = Inr (b, proto')"
      by (auto simp: prototype_component_def sparse_map_insert_or_assign_def sparse_map_insert_def
          split: sum.splits)
    from sparse_map_insert_new[OF wf fresh ins] sparse_map_insert_find[OF wf fresh ins]
    show ?thesis by simp
  qed
  then show "sm_wf sparse_indexer proto'"
    and "sparse_map_find sparse_indexer proto' t' =
           (if t' = t then Some v else sparse_map_find sparse_indexer proto t')" by simp_all
qed

lemma example_prototype_built:
  "prototype_component lp64 sparse_map_empty 0 (50 :: nat)
     = Inr \<lparr>keys = \<lparr>dense = [0], sparse = [0]\<rparr>, vals = [50]\<rparr>"
  "prototype_component lp64 \<lparr>keys = \<lparr>dense = [0], sparse = [0]\<rparr>, vals = [50]\<rparr> 2 (90 :: nat)
     = Inr example_prototype"
  by (simp_all add: prototype_component_def sparse_map_insert_or_assign_def
      sparse_set_find_dense_index_def sparse_set_has_def sparse_set_insert_def
      sparse_map_empty_def sparse_set_empty_def next_capacity_size_def vector_resize_def
      sparse_indexer_def lp64_def Let_def example_prototype_def replicate_numeral_unfold)

lemma example_prototype_wf: "sm_wf sparse_indexer example_prototype"
  by (rule prototype_component_wf(1)[OF prototype_component_wf(1)[OF sm_wf_empty
      example_prototype_built(1)] example_prototype_built(2)])

lemma example_prototype_find:
  "sparse_map_find sparse_indexer example_prototype 0 = Some 50"
  "sparse_map_find sparse_indexer example_prototype 1 = None"
  "sparse_map_find sparse_indexer example_prototype 2 = Some 90"
  by (simp_all add: sparse_map_find_def sparse_set_find_dense_index_def sparse_set_has_def
      sparse_indexer_def example_prototype_def)

lemma example_valid_2: "valid_entity example_registry 2"
  by (simp add: valid_entity_def sparse_set_has_def example_registry_def entity_id_indexer_2)

theorem prototype_apply_to_entity_override_witness:
  "reachable lp64 example_registry \<and> platform_ok lp64 \<and> valid_entity example_registry 2
   \<and> sm_wf sparse_indexer example_prototype
   \<and> (\<exists>r'. prototype_apply_to_entity lp64 example_registry example_prototype 2 False = Inr r'
          \<and> find_component lp64 r' 0 2 = Inr (Some 6)
          \<and> find_component lp64 r' 1 2 = Inr None
          \<and> find_component lp64 r' 2 2 = Inr (Some 90)
          \<and> component_at r' 0 1 = Some 5 \<and> component_at r' 2 1 = None)
   \<and> (\<exists>r'. prototype_apply_to_entity lp64 example_registry example_prototype 2 True = Inr r'
          \<and> find_component lp64 r' 0 2 = Inr (Some 50)
          \<and> find_component lp64 r' 1 2 = Inr None
          \<and> find_component lp64 r' 2 2 = Inr (Some 90)
          \<and> component_at r' 0 1 = Some 5 \<and> component_at r' 2 1 = None)"
proof -
  note th = prototype_apply_to_entity_override [OF example_reachable platform_ok_lp64
      example_valid_2 example_prototype_wf]
  from th[of False] obtain r1 where
    a: "prototype_apply_to_entity lp64 example_registry example_prototype 2 False = Inr r1"
    and f: "\<And>t. find_component lp64 r1 t 2 =
            Inr (case component_at example_registry t 2 of
                   Some c \<Rightarrow> Some c
                 | None \<Rightarrow> sparse_map_find sparse_indexer example_prototype t)"
    and o: "\<And>t e'. e' \<noteq> 2 \<longrightarrow> component_at r1 t e' = component_at example_registry t e'"
    by auto
  from th[of True] obtain r2 where
    a2: "prototype_apply_to_entity lp64 example_registry example_prototype 2 True = Inr r2"
    and f2: "\<And>t. find_component lp64 r2 t 2 =
            Inr (case sparse_map_find sparse_indexer example_prototype t of
                         Some v \<Rightarrow> Some v
                       | None \<Rightarrow> component_at example_registry t 2)"
    and o2: "\<And>t e'. e' \<noteq> 2 \<longrightarrow> component_at r2 t e' = component_at example_registry t e'"
    by auto
  have 1: "\<exists>r'. prototype_apply_to_entity lp64 example_registry example_prototype 2 False = Inr r'
          \<and> find_component lp64 r' 0 2 = Inr (Some 6)
          \<and> find_component lp64 r' 1 2 = Inr None
          \<and> find_component lp64 r' 2 2 = Inr (Some 90)
          \<and> component_at r' 0 1 = Some 5 \<and> component_at r' 2 1 = None"
    using a o[of 1 0] o[of 1 2]
    by (intro exI[of _ r1]) (simp add: f example_component_at example_prototype_find)
  have 2: "\<exists>r'. prototype_apply_to_entity lp64 example_registry example_prototype 2 True = Inr r'
          \<and> find_component lp64 r' 0 2 = Inr (Some 50)
          \<and> find_component lp64 r' 1 2 = Inr None
          \<and> find_component lp64 r' 2 2 = Inr (Some 90)
          \<and> component_at r' 0 1 = Some 5 \<and> component_at r' 2 1 = None"
    using a2 o2[of 1 0] o2[of 1 2]
    by (intro exI[of _ r2]) (simp add: f2 example_component_at example_prototype_find)
  from 1 2 example_reachable platform_ok_lp64 example_valid_2 example_prototype_wf
  show ?thesis by blast
qed

section \<open>The stale handle\<close>

lemma create_entity_assertions: "create_entity (p\<lparr>assertions := b\<rparr>) r = create_entity p r"
  by (simp add: create_entity_def cong: sum.case_cong prod.case_cong if_cong)

lemma platform_ok_lp64_ndebug: "platform_ok lp64_ndebug"
  by (simp add: platform_ok_def lp64_ndebug_def lp64_def)

lemma stale_step_1:
  "create_entity (lp64\<lparr>assertions := b\<rparr>) (registry_empty :: nat registry) =
     (Inr 1, \<lparr>last_entity_id = 1, free_entity_ids = [], free_entity_ids_capacity = 1,
              entity_ids = \<lparr>dense = [1], sparse = [0, 0]\<rparr>, storages = sparse_map_empty\<rparr>)"
  by (simp add: create_entity_assertions create_entity_first)

lemma stale_step_2:
  "assign_component (lp64\<lparr>assertions := b\<rparr>)
       \<lparr>last_entity_id = 1, free_entity_ids = [], free_entity_ids_capacity = 1,
        entity_ids = \<lparr>dense = [1], sparse = [0, 0]\<rparr>, storages = sparse_map_empty\<rparr>
       0 1 (5 :: nat)
     = Inr \<lparr>last_entity_id = 1, free_entity_ids = [], free_entity_ids_capacity = 1,
        entity_ids = \<lparr>dense = [1], sparse = [0, 0]\<rparr>,
        storages = \<lparr>keys = \<lparr>dense = [0], sparse = [0]\<rparr>,
                    vals = [\<lparr>keys = \<lparr>dense = [1], sparse = [0, 0]\<rparr>, vals = [5]\<rparr>]\<rparr>\<rparr>"
  by (simp add: assign_component_def valid_entity_def sparse_set_has_def lp64_def
      get_or_create_storage_def find_storage_def sparse_set_find_dense_index_def
      sparse_set_get_dense_index_def sparse_map_insert_def sparse_set_insert_def
      sparse_map_empty_def sparse_set_empty_def next_capacity_size_def vector_resize_def
      storage_assign_def storage_at_def set_storage_at_def Let_def
      entity_id_indexer_examples sparse_indexer_examples)

lemma stale_step_3:
  "destroy_entity (lp64\<lparr>assertions := b\<rparr>)
       \<lparr>last_entity_id = 1, free_entity_ids = [], free_entity_ids_capacity = 1,
        entity_ids = \<lparr>dense = [1], sparse = [0, 0]\<rparr>,
        storages = \<lparr>keys = \<lparr>dense = [0], sparse = [0]\<rparr>,
                    vals = [\<lparr>keys = \<lparr>dense = [1], sparse = [0, 0]\<rparr>, vals = [5 :: nat]\<rparr>]\<rparr>\<rparr> 1
     = Inr destroyed_registry"
  by (simp add: destroy_entity_def remove_all_components_def lp64_def valid_entity_def
      sparse_set_get_dense_index_def sparse_set_find_dense_index_def sparse_set_has_def
      storage_remove_def sparse_map_unordered_erase_def sparse_set_unordered_erase_def
      vector_push_back_capacity_def Let_def destroyed_registry_def
      entity_id_indexer_examples sparse_indexer_examples)

lemma stale_step_4:
  "create_entity (lp64\<lparr>assertions := b\<rparr>) destroyed_registry =
     (Inr 4194305,
      \<lparr>last_entity_id = 1, free_entity_ids = [], free_entity_ids_capacity = 1,
        entity_ids = \<lparr>dense = [4194305], sparse = [0, 0]\<rparr>,
        storages = \<lparr>keys = \<lparr>dense = [0], sparse = [0]\<rparr>,
                    vals = [\<lparr>keys = \<lparr>dense = [], sparse = [0, 0]\<rparr>, vals = []\<rparr>]\<rparr>\<rparr>)"
proof -
  have u: "upgrade_entity_id 1 = 4194305"
    by (simp add: upgrade_entity_id_def entity_id_join_def entity_id_index_1
        entity_id_version_def entity_id_index_bits_def)
  show ?thesis
    by (simp add: create_entity_def destroyed_registry_def u Let_def sparse_set_insert_def
        sparse_set_has_def entity_id_indexer_examples)
qed

lemma stale_step_5:
  "assign_component (lp64\<lparr>assertions := b\<rparr>)
       \<lparr>last_entity_id = 1, free_entity_ids = [], free_entity_ids_capacity = 1,
        entity_ids = \<lparr>dense = [4194305], sparse = [0, 0]\<rparr>,
        storages = \<lparr>keys = \<lparr>dense = [0], sparse = [0]\<rparr>,
                    vals = [\<lparr>keys = \<lparr>dense = [], sparse = [0, 0]\<rparr>, vals = []\<rparr>]\<rparr>\<rparr>
       0 4194305 (9 :: nat)
     = Inr stale_example_registry"
  by (simp add: assign_component_def valid_entity_def sparse_set_has_def lp64_def
      get_or_create_storage_def find_storage_def sparse_set_find_dense_index_def
      sparse_set_get_dense_index_def sparse_map_insert_def sparse_set_insert_def
      storage_assign_def storage_at_def set_storage_at_def Let_def stale_example_registry_def
      entity_id_indexer_examples sparse_indexer_examples)

lemma misuse_step:
  "assign_component lp64_ndebug destroyed_registry 0 1 5 = Inr misused_registry"
  by (simp add: assign_component_def lp64_def lp64_ndebug_def destroyed_registry_def
      get_or_create_storage_def find_storage_def sparse_set_find_dense_index_def
      sparse_set_get_dense_index_def sparse_map_insert_def sparse_set_insert_def
      storage_assign_def storage_at_def set_storage_at_def Let_def misused_registry_def
      sparse_set_has_def entity_id_indexer_examples sparse_indexer_examples)

lemma stale_example_run:
  "registry_run (lp64\<lparr>assertions := b\<rparr>) registry_empty stale_example_ops
     = Inr stale_example_registry"
proof -
  have v1: "valid_entity
       \<lparr>last_entity_id = 1, free_entity_ids = [], free_entity_ids_capacity = 1,
        entity_ids = \<lparr>dense = [1], sparse = [0, 0]\<rparr>, storages = m\<rparr> 1"
    and v2: "valid_entity
       \<lparr>last_entity_id = 1, free_entity_ids = [], free_entity_ids_capacity = 1,
        entity_ids = \<lparr>dense = [4194305], sparse = [0, 0]\<rparr>, storages = m\<rparr> 4194305"
    for m :: "(family_id, nat component_storage) sparse_map"
    by (simp_all add: valid_entity_def sparse_set_has_def entity_id_indexer_examples)
  show ?thesis
    unfolding stale_example_ops_def
    by (simp only: registry_run.simps registry_step.simps op_precondition.simps
        stale_step_1 stale_step_2 stale_step_3 stale_step_4 stale_step_5 v1 v2
        sum.case prod.case not_True_eq_False if_False simp_thms)
qed

lemma destroyed_run:
  "registry_run (lp64\<lparr>assertions := b\<rparr>) registry_empty
      [Create_entity, Assign_component 0 1 5, Destroy_entity 1] = Inr destroyed_registry"
proof -
  have v1: "valid_entity
       \<lparr>last_entity_id = 1, free_entity_ids = [], free_entity_ids_capacity = 1,
        entity_ids = \<lparr>dense = [1], sparse = [0, 0]\<rparr>, storages = m\<rparr> 1"
    for m :: "(family_id, nat component_storage) sparse_map"
    by (simp add: valid_entity_def sparse_set_has_def entity_id_indexer_examples)
  show ?thesis
    by (simp only: registry_run.simps registry_step.simps op_precondition.simps
        stale_step_1 stale_step_2 stale_step_3 v1
        sum.case prod.case not_True_eq_False if_False simp_thms)
qed

lemma lp64_assertions: "lp64 = lp64\<lparr>assertions := True\<rparr>"
  by (simp add: lp64_def)

lemma stale_example_reachable: "reachable lp64_ndebug stale_example_registry"
  unfolding lp64_ndebug_def by (rule registry_run_reachable[OF reachable_empty stale_example_run])

lemma destroyed_reachable:
  "reachable lp64 destroyed_registry" "reachable lp64_ndebug destroyed_registry"
proof -
  from registry_run_reachable[OF reachable_empty destroyed_run[of True]]
  show "reachable lp64 destroyed_registry" by (simp add: lp64_assertions[symmetric])
  show "reachable lp64_ndebug destroyed_registry"
    unfolding lp64_ndebug_def by (rule registry_run_reachable[OF reachable_empty destroyed_run])
qed

lemma stale_example_facts:
  "\<not> valid_entity stale_example_registry 1"
  "valid_entity stale_example_registry 4194305"
  "find_component lp64_ndebug stale_example_registry 0 4194305 = Inr (Some 9)"
  by (simp_all add: valid_entity_def sparse_set_has_def stale_example_registry_def
      find_component_def find_storage_def storage_at_def storage_find_def sparse_map_find_def
      sparse_set_find_dense_index_def lp64_ndebug_def lp64_def
      entity_id_indexer_examples sparse_indexer_examples)

lemma destroyed_invalid:
  "\<not> valid_entity destroyed_registry 1" "\<not> valid_entity misused_registry 1"
  by (simp_all add: valid_entity_def sparse_set_has_def destroyed_registry_def
      misused_registry_def)

section \<open>Lookup on an invalid handle: the claim\<close>

text \<open>
  Claim C9, as amended. \<open>exists_component\<close> and \<open>find_component\<close> begin with
  \<open>assert(valid_entity(ent))\<close>; the functions of the handle types call these two. Take a
  reachable registry, that is, one on which every operation so far was applied to a valid
  entity, as the assertions of the operations demand, and a handle that is not valid. Where
  assertions are compiled in, both functions fail the assertion. Where they are compiled
  out, \<open>exists_component\<close> returns false and \<open>find_component\<close> returns the null pointer.
\<close>

theorem lookup_on_invalid_entity:
  assumes "reachable p r" and "platform_ok p" and "\<not> valid_entity r e"
  shows "exists_component p r t e = (if assertions p then Inl Assertion_failed else Inr False)
       \<and> find_component p r t e = (if assertions p then Inl Assertion_failed else Inr None)"
proof -
  note inv = reachable_inv[OF assms(1,2)]
  from component_at_invalid[OF inv assms(3)] assms(3) show ?thesis
    by (simp add: exists_component_eq[OF inv] find_component_eq)
qed

text \<open>
  With assertions compiled out, on the stale handle \<open>1\<close> whose slot is live again and has
  a component in the storage that is searched; with assertions compiled in, on the handle
  of the destroyed entity.
\<close>

theorem lookup_on_invalid_entity_witness:
  "reachable lp64_ndebug stale_example_registry \<and> platform_ok lp64_ndebug
   \<and> \<not> valid_entity stale_example_registry 1
   \<and> find_component lp64_ndebug stale_example_registry 0 4194305 = Inr (Some 9)
   \<and> exists_component lp64_ndebug stale_example_registry 0 1 = Inr False
   \<and> find_component lp64_ndebug stale_example_registry 0 1 = Inr None
   \<and> reachable lp64 destroyed_registry \<and> platform_ok lp64
   \<and> \<not> valid_entity destroyed_registry 1
   \<and> exists_component lp64 destroyed_registry 0 1 = Inl Assertion_failed
   \<and> find_component lp64 destroyed_registry 0 1 = Inl Assertion_failed"
proof -
  have n: "\<not> assertions lp64_ndebug" and a: "assertions lp64"
    by (simp_all add: lp64_ndebug_def lp64_def)
  from lookup_on_invalid_entity [OF stale_example_reachable platform_ok_lp64_ndebug
      stale_example_facts(1), of 0] n
  have 1: "exists_component lp64_ndebug stale_example_registry 0 1 = Inr False"
    and 2: "find_component lp64_ndebug stale_example_registry 0 1 = Inr None" by simp_all
  from lookup_on_invalid_entity [OF destroyed_reachable(1) platform_ok_lp64
      destroyed_invalid(1), of 0] a
  have 3: "exists_component lp64 destroyed_registry 0 1 = Inl Assertion_failed"
    and 4: "find_component lp64 destroyed_registry 0 1 = Inl Assertion_failed" by simp_all
  from 1 2 3 4 stale_example_reachable platform_ok_lp64_ndebug stale_example_facts
    destroyed_reachable(1) platform_ok_lp64 destroyed_invalid(1)
  show ?thesis by simp
qed

text \<open>
  The claim as stated, that the two functions do not fail on an invalid handle and return
  absent and false, fails in both builds. Where assertions are compiled in: create an
  entity (id \<open>1\<close>), give it a component and destroy it; on the destroyed handle both
  functions fail the assertion. Where assertions are compiled out, nothing keeps a program
  from assigning a component to the destroyed handle; the assignment succeeds, and then
  \<open>find_component\<close> on the handle, still invalid, returns that component and
  \<open>exists_component\<close> returns true.
\<close>

theorem lookup_on_destroyed_entity_counterexample:
  "reachable lp64 destroyed_registry
   \<and> \<not> valid_entity destroyed_registry 1
   \<and> exists_component lp64 destroyed_registry 0 1 = Inl Assertion_failed
   \<and> find_component lp64 destroyed_registry 0 1 = Inl Assertion_failed
   \<and> reachable lp64_ndebug destroyed_registry
   \<and> assign_component lp64_ndebug destroyed_registry 0 1 5 = Inr misused_registry
   \<and> \<not> valid_entity misused_registry 1
   \<and> exists_component lp64_ndebug misused_registry 0 1 = Inr True
   \<and> find_component lp64_ndebug misused_registry 0 1 = Inr (Some 5)"
proof -
  have a: "assertions lp64" by (simp add: lp64_def)
  from destroyed_invalid(1) a have 1: "exists_component lp64 destroyed_registry 0 1 = Inl Assertion_failed"
    and 2: "find_component lp64 destroyed_registry 0 1 = Inl Assertion_failed"
    by (simp_all add: exists_component_def find_component_def)
  have 3: "exists_component lp64_ndebug misused_registry 0 1 = Inr True"
    and 4: "find_component lp64_ndebug misused_registry 0 1 = Inr (Some 5)"
    by (simp_all add: exists_component_def find_component_def lp64_ndebug_def lp64_def
        misused_registry_def find_storage_def storage_at_def storage_exists_def
        storage_find_def sparse_map_has_def sparse_map_find_def
        sparse_set_find_dense_index_def sparse_set_has_def
        entity_id_indexer_examples sparse_indexer_examples)
  from 1 2 3 4 destroyed_reachable destroyed_invalid misuse_step show ?thesis by simp
qed

end
